theory Spec2Isabelle
  imports Complex_Main "HOL-Library.Multiset" "HOL-Library.Signed_Division"
begin

section \<open>Data model of \<open>Nystrom.cpp\<close>\<close>

text \<open>
  The estimator of \<open>shogun/distributions/kernel_exp_family/impl/Nystrom.cpp\<close>.

  \<^item> \<open>index_t\<close> is shogun's 32-bit signed index type; its values are modelled as
    \<open>int\<close>. The sizes and positions the code computes in \<open>index_t\<close> (\<open>N*D\<close>, \<open>m+1\<close>,
    \<open>idx_a*D\<close>) are those of vectors and matrices it allocates and are taken as
    representable. The divisor \<open>N*N\<close> of \<open>compute_xi_norm_2\<close> is no size of anything
    allocated and leaves the range from \<open>N = 46341\<close> on: that product is modelled with
    the wrap-around of the 32-bit multiplication. C++ division and remainder truncate
    towards zero: they are \<open>sdiv\<close> and \<open>smod\<close>.
  \<^item> \<open>float64_t\<close> is idealised as \<open>real\<close>: the model states which operations the code
    performs on which operands, in exact arithmetic, without rounding.
  \<^item> \<open>SGVector<T>\<close> is a list (\<open>vlen\<close> is its length). An access outside the vector is
    undefined behaviour in C++; theorems that depend on an access carry the range
    hypothesis that makes it defined.
  \<^item> \<open>SGMatrix<float64_t>\<close> (and Eigen's \<open>MatrixXd\<close>, \<open>Map<MatrixXd>\<close>) is a record of
    its two dimensions and its entries, addressed by (row, column). A freshly
    allocated vector or matrix is modelled as holding zeros.
  \<^item> Every \<open>SG_SERROR\<close> and failed \<open>ASSERT\<close> of the source raises a
    \<open>ShogunException\<close>; a function that can raise returns \<open>error + 'a\<close>.
\<close>

type_synonym index_t = int
type_synonym float64_t = real
type_synonym 'a SGVector = "'a list"

text \<open>
  The product of two \<open>index_t\<close> values as the 32-bit signed multiplication delivers
  it: the mathematical product reduced to \<open>[-2^31, 2^31)\<close>.
\<close>

definition index_t_mul :: "index_t \<Rightarrow> index_t \<Rightarrow> index_t" where
  "index_t_mul a b = (a * b + 2 ^ 31) mod 2 ^ 32 - 2 ^ 31"

datatype error = ShogunException string

record SGMatrix =
  num_rows :: index_t
  num_cols :: index_t
  matrix :: "index_t \<times> index_t \<Rightarrow> float64_t"

text \<open>
  \<open>kernel::Base\<close>: the virtual derivative oracles that \<open>Nystrom.cpp\<close> calls through
  \<open>m_kernel\<close>. Their implementations live in the kernel classes; here they are the
  fields of a record of functions.
\<close>

record kernel_Base =
  dx_component :: "index_t \<Rightarrow> index_t \<Rightarrow> index_t \<Rightarrow> float64_t"
  dx_dx_component :: "index_t \<Rightarrow> index_t \<Rightarrow> index_t \<Rightarrow> float64_t"
  dx_dy_component :: "index_t \<Rightarrow> index_t \<Rightarrow> index_t \<Rightarrow> index_t \<Rightarrow> float64_t"
  dx_dx_dy_component :: "index_t \<Rightarrow> index_t \<Rightarrow> index_t \<Rightarrow> index_t \<Rightarrow> float64_t"
  dx_dx_dy_dy_component :: "index_t \<Rightarrow> index_t \<Rightarrow> index_t \<Rightarrow> index_t \<Rightarrow> float64_t"
  dx_i_dx_i_dx_j_component :: "index_t \<Rightarrow> index_t \<Rightarrow> index_t \<Rightarrow> float64_t SGVector"
  dx_i_dx_j_component :: "index_t \<Rightarrow> index_t \<Rightarrow> index_t \<Rightarrow> float64_t SGVector"
  dx_i_dx_j_dx_k_dx_k_row_sum :: "index_t \<Rightarrow> index_t \<Rightarrow> SGMatrix"
  dx_i_dx_j_dx_k_dot_vec :: "index_t \<Rightarrow> index_t \<Rightarrow> float64_t SGVector \<Rightarrow> SGMatrix"
  dx_i_dx_j_dx_k_dx_k_row_sum_component ::
    "index_t \<Rightarrow> index_t \<Rightarrow> index_t \<Rightarrow> index_t \<Rightarrow> float64_t"
  dx_i_dx_j_dx_k_dot_vec_component ::
    "index_t \<Rightarrow> index_t \<Rightarrow> float64_t SGVector \<Rightarrow> index_t \<Rightarrow> index_t \<Rightarrow> float64_t"

text \<open>
  The base class \<open>Base\<close> as \<open>Nystrom.cpp\<close> sees it: the sample count and the
  coordinate count it reports, the kernel, the regulariser and the fitted
  coefficient vector. \<open>Nystrom\<close> adds the indices of the basis.
\<close>

record Base =
  get_num_lhs :: index_t
  get_num_dimensions :: index_t
  m_kernel :: kernel_Base
  m_lambda :: float64_t
  m_alpha_beta :: "float64_t SGVector"

record Nystrom = Base +
  m_rkhs_basis_inds :: "index_t SGVector"

section \<open>Loops and the Eigen expressions the source uses\<close>

text \<open>\<open>for (auto idx=0; idx<n; idx++) body\<close>, threading the variables the body writes.\<close>

definition for_loop :: "index_t \<Rightarrow> (index_t \<Rightarrow> 's \<Rightarrow> 's) \<Rightarrow> 's \<Rightarrow> 's" where
  "for_loop n body s = fold body [0..n - 1] s"

definition SGVector_alloc :: "index_t \<Rightarrow> float64_t SGVector" where
  "SGVector_alloc n = replicate (nat n) 0"

definition SGMatrix_alloc :: "index_t \<Rightarrow> index_t \<Rightarrow> SGMatrix" where
  "SGMatrix_alloc r c = \<lparr>num_rows = r, num_cols = c, matrix = (\<lambda>_. 0)\<rparr>"

text \<open>\<open>M(r,c)\<close> read and \<open>M(r,c) = v\<close>.\<close>

definition elem :: "SGMatrix \<Rightarrow> index_t \<Rightarrow> index_t \<Rightarrow> float64_t" where
  "elem M r c = matrix M (r, c)"

definition set_elem :: "SGMatrix \<Rightarrow> index_t \<Rightarrow> index_t \<Rightarrow> float64_t \<Rightarrow> SGMatrix" where
  "set_elem M r c v = M\<lparr>matrix := (matrix M)((r, c) := v)\<rparr>"

text \<open>\<open>Map<VectorXd>(v.vector, n)\<close>: the first \<open>n\<close> entries of the storage of \<open>v\<close>.\<close>

definition Map_VectorXd :: "float64_t SGVector \<Rightarrow> index_t \<Rightarrow> float64_t SGVector" where
  "Map_VectorXd v n = take (nat n) v"

text \<open>
  \<open>Map<MatrixXd>(M.matrix, r, c)\<close>: the storage of \<open>M\<close> seen as an \<open>r\<close> by \<open>c\<close> matrix.
  Every use in the source maps a matrix with its own dimensions (for the matrices the
  kernel returns: \<open>D\<close> by \<open>D\<close>), where the entries keep their addresses.
\<close>

definition Map_MatrixXd :: "SGMatrix \<Rightarrow> index_t \<Rightarrow> index_t \<Rightarrow> SGMatrix" where
  "Map_MatrixXd M r c = M\<lparr>num_rows := r, num_cols := c\<rparr>"

definition squaredNorm :: "float64_t SGVector \<Rightarrow> float64_t" where
  "squaredNorm v = sum_list (map (\<lambda>x. x * x) v)"

definition transpose_m :: "SGMatrix \<Rightarrow> SGMatrix" where
  "transpose_m M =
     \<lparr>num_rows = num_cols M, num_cols = num_rows M, matrix = (\<lambda>(r, c). matrix M (c, r))\<rparr>"

text \<open>The matrix product \<open>A*B\<close>; the inner dimension is that of \<open>A\<close>.\<close>

definition mat_mul :: "SGMatrix \<Rightarrow> SGMatrix \<Rightarrow> SGMatrix" where
  "mat_mul A B =
     \<lparr>num_rows = num_rows A, num_cols = num_cols B,
      matrix = (\<lambda>(r, c). sum_list (map (\<lambda>k. matrix A (r, k) * matrix B (k, c))
                                        [0..num_cols A - 1]))\<rparr>"

definition mat_add :: "SGMatrix \<Rightarrow> SGMatrix \<Rightarrow> SGMatrix" where
  "mat_add A B = A\<lparr>matrix := (\<lambda>rc. matrix A rc + matrix B rc)\<rparr>"

definition mat_sub :: "SGMatrix \<Rightarrow> SGMatrix \<Rightarrow> SGMatrix" where
  "mat_sub A B = A\<lparr>matrix := (\<lambda>rc. matrix A rc - matrix B rc)\<rparr>"

text \<open>
  The entrywise products \<open>A * x\<close> and \<open>x * A\<close> of a matrix (or a vector) with a scalar
  multiply the same two numbers in each entry; one function serves both.
\<close>

definition mat_scale :: "SGMatrix \<Rightarrow> float64_t \<Rightarrow> SGMatrix" where
  "mat_scale A x = A\<lparr>matrix := (\<lambda>rc. matrix A rc * x)\<rparr>"

definition mat_div :: "SGMatrix \<Rightarrow> float64_t \<Rightarrow> SGMatrix" where
  "mat_div A x = A\<lparr>matrix := (\<lambda>rc. matrix A rc / x)\<rparr>"

text \<open>The matrix-vector product \<open>A*v\<close>, a vector with one entry per row of \<open>A\<close>.\<close>

definition mat_vec_mul :: "SGMatrix \<Rightarrow> float64_t SGVector \<Rightarrow> float64_t SGVector" where
  "mat_vec_mul A v =
     map (\<lambda>r. sum_list (map (\<lambda>k. matrix A (r, k) * v ! nat k) [0..num_cols A - 1]))
         [0..num_rows A - 1]"

definition vec_add :: "float64_t SGVector \<Rightarrow> float64_t SGVector \<Rightarrow> float64_t SGVector" where
  "vec_add u v = map2 (+) u v"

definition vec_sub :: "float64_t SGVector \<Rightarrow> float64_t SGVector \<Rightarrow> float64_t SGVector" where
  "vec_sub u v = map2 (-) u v"

definition vec_scale :: "float64_t SGVector \<Rightarrow> float64_t \<Rightarrow> float64_t SGVector" where
  "vec_scale v x = map (\<lambda>y. y * x) v"

definition vec_div :: "float64_t SGVector \<Rightarrow> float64_t \<Rightarrow> float64_t SGVector" where
  "vec_div v x = map (\<lambda>y. y / x) v"

definition vec_neg :: "float64_t SGVector \<Rightarrow> float64_t SGVector" where
  "vec_neg v = map uminus v"

text \<open>\<open>v.segment(start, n)\<close> read, and \<open>v.segment(start, n) = w\<close>.\<close>

definition segment :: "float64_t SGVector \<Rightarrow> index_t \<Rightarrow> index_t \<Rightarrow> float64_t SGVector" where
  "segment v start n = take (nat n) (drop (nat start) v)"

definition set_segment ::
  "float64_t SGVector \<Rightarrow> index_t \<Rightarrow> index_t \<Rightarrow> float64_t SGVector \<Rightarrow> float64_t SGVector" where
  "set_segment v start n w =
     for_loop n (\<lambda>k v. v[nat (start + k) := w ! nat k]) v"

text \<open>\<open>M.block(r0, c0, nr, nc) = B\<close>.\<close>

definition set_block ::
  "SGMatrix \<Rightarrow> index_t \<Rightarrow> index_t \<Rightarrow> index_t \<Rightarrow> index_t \<Rightarrow> SGMatrix \<Rightarrow> SGMatrix" where
  "set_block M r0 c0 nr nc B =
     M\<lparr>matrix := (\<lambda>(r, c).
          if r0 \<le> r \<and> r < r0 + nr \<and> c0 \<le> c \<and> c < c0 + nc
          then matrix B (r - r0, c - c0) else matrix M (r, c))\<rparr>"

text \<open>\<open>M.col(c0).segment(r0, n) = w\<close>.\<close>

definition set_col_segment ::
  "SGMatrix \<Rightarrow> index_t \<Rightarrow> index_t \<Rightarrow> index_t \<Rightarrow> float64_t SGVector \<Rightarrow> SGMatrix" where
  "set_col_segment M c0 r0 n w =
     M\<lparr>matrix := (\<lambda>(r, c).
          if c = c0 \<and> r0 \<le> r \<and> r < r0 + n then w ! nat (r - r0) else matrix M (r, c))\<rparr>"

text \<open>\<open>v.asDiagonal()\<close>.\<close>

definition asDiagonal :: "float64_t SGVector \<Rightarrow> SGMatrix" where
  "asDiagonal v =
     \<lparr>num_rows = int (length v), num_cols = int (length v),
      matrix = (\<lambda>(r, c). if r = c then v ! nat r else 0)\<rparr>"

text \<open>\<open>v.maxCoeff()\<close> of a vector with at least one entry.\<close>

definition maxCoeff :: "float64_t SGVector \<Rightarrow> float64_t" where
  "maxCoeff v = fold max (tl v) (hd v)"

section \<open>The functions of \<open>Nystrom.cpp\<close>\<close>

definition get_num_rkhs_basis :: "Nystrom \<Rightarrow> index_t" where
  "get_num_rkhs_basis this = int (length (m_rkhs_basis_inds this))"

text \<open>The static \<open>idx_to_ai(idx, D)\<close> and the member that passes the coordinate count.\<close>

definition idx_to_ai_D :: "index_t \<Rightarrow> index_t \<Rightarrow> index_t \<times> index_t" where
  "idx_to_ai_D idx D = (idx sdiv D, idx smod D)"

definition idx_to_ai :: "Nystrom \<Rightarrow> index_t \<Rightarrow> index_t \<times> index_t" where
  "idx_to_ai this idx = idx_to_ai_D idx (get_num_dimensions this)"

definition compute_xi_norm_2 :: "Nystrom \<Rightarrow> float64_t" where
  "compute_xi_norm_2 this =
     (let N = get_num_lhs this;
          m = get_num_rkhs_basis this;
          D = get_num_dimensions this;
          xi_norm_2 =
            for_loop m (\<lambda>idx.
              for_loop N (\<lambda>idx_b.
                for_loop D (\<lambda>j xi_norm_2.
                  let ai = idx_to_ai this (m_rkhs_basis_inds this ! nat idx)
                  in xi_norm_2 +
                     dx_dx_dy_dy_component (m_kernel this) (fst ai) idx_b (snd ai) j))) 0
      in xi_norm_2 / of_int (index_t_mul N N))"

definition compute_h :: "Nystrom \<Rightarrow> float64_t SGVector" where
  "compute_h this =
     (let m = get_num_rkhs_basis this;
          D = get_num_dimensions this;
          N = get_num_lhs this;
          h = SGVector_alloc m;
          h = for_loop m (\<lambda>idx h.
                let bj = idx_to_ai this (m_rkhs_basis_inds this ! nat idx)
                in for_loop N (\<lambda>idx_a.
                     for_loop D (\<lambda>i h.
                       h[nat idx := h ! nat idx +
                           dx_dx_dy_component (m_kernel this) idx_a (fst bj) i (snd bj)])) h) h
      in vec_div h (of_int N))"

definition build_system :: "Nystrom \<Rightarrow> SGMatrix \<times> float64_t SGVector" where
  "build_system this =
     (let D = get_num_dimensions this;
          N = get_num_lhs this;
          ND = N * D;
          m = get_num_rkhs_basis this;
          A = SGMatrix_alloc (m + 1) (m + 1);
          b = SGVector_alloc (m + 1);
          h = compute_h this;
          eigen_h = Map_VectorXd h m;
          xi_norm_2 = compute_xi_norm_2 this;
          col_sub_sampled_hessian = SGMatrix_alloc ND m;
          sub_sampled_hessian = SGMatrix_alloc m m;
          (col_sub_sampled_hessian, sub_sampled_hessian) =
            for_loop m (\<lambda>idx (col_sub_sampled_hessian, sub_sampled_hessian).
              let ai = idx_to_ai this (m_rkhs_basis_inds this ! nat idx);
                  col_sub_sampled_hessian =
                    for_loop ND (\<lambda>row_idx col_sub_sampled_hessian.
                      let bj = idx_to_ai this row_idx
                      in set_elem col_sub_sampled_hessian row_idx idx
                           (dx_dy_component (m_kernel this) (fst ai) (fst bj) (snd ai) (snd bj)))
                      col_sub_sampled_hessian;
                  sub_sampled_hessian =
                    for_loop m (\<lambda>row_idx sub_sampled_hessian.
                      set_elem sub_sampled_hessian row_idx idx
                        (elem col_sub_sampled_hessian
                           (m_rkhs_basis_inds this ! nat row_idx) idx))
                      sub_sampled_hessian
              in (col_sub_sampled_hessian, sub_sampled_hessian))
              (col_sub_sampled_hessian, sub_sampled_hessian);
          eigen_col_sub_sampled_hessian = Map_MatrixXd col_sub_sampled_hessian ND m;
          eigen_sub_sampled_hessian = Map_MatrixXd sub_sampled_hessian m m;
          A = set_elem A 0 0 (squaredNorm eigen_h / of_int N + m_lambda this * xi_norm_2);
          A = set_block A 1 1 m m
                (mat_add
                   (mat_div (mat_mul (transpose_m eigen_col_sub_sampled_hessian)
                                     eigen_col_sub_sampled_hessian) (of_int N))
                   (mat_scale eigen_sub_sampled_hessian (m_lambda this)));
          A = set_col_segment A 0 1 m
                (vec_add (vec_div (mat_vec_mul eigen_sub_sampled_hessian eigen_h) (of_int N))
                         (vec_scale eigen_h (m_lambda this)));
          A = for_loop m (\<lambda>idx A. set_elem A 0 (idx + 1) (elem A (idx + 1) 0)) A;
          b = b[0 := - xi_norm_2];
          b = set_segment b 1 m (vec_neg eigen_h)
      in (A, b))"

definition log_pdf :: "Nystrom \<Rightarrow> index_t \<Rightarrow> error + float64_t" where
  "log_pdf this idx_test =
     (let N = get_num_lhs this;
          m = get_num_rkhs_basis this;
          (xi, beta_sum) =
            for_loop m (\<lambda>idx (xi, beta_sum).
              let ai = idx_to_ai this (m_rkhs_basis_inds this ! nat idx);
                  xi_grad_i = dx_dx_component (m_kernel this) (fst ai) idx_test (snd ai);
                  grad_x_xa_i = dx_component (m_kernel this) (fst ai) idx_test (snd ai)
              in (xi + xi_grad_i,
                  beta_sum - grad_x_xa_i * m_alpha_beta this ! nat (1 + idx))) (0, 0)
      in Inr (m_alpha_beta this ! 0 * xi / of_int N + beta_sum))"

definition grad :: "Nystrom \<Rightarrow> index_t \<Rightarrow> error + float64_t SGVector" where
  "grad this idx_test =
     (let N = get_num_lhs this;
          D = get_num_dimensions this;
          m = get_num_rkhs_basis this;
          eigen_xi_grad = SGVector_alloc D;
          eigen_beta_sum_grad = SGVector_alloc D;
          (eigen_xi_grad, eigen_beta_sum_grad) =
            for_loop m (\<lambda>idx (eigen_xi_grad, eigen_beta_sum_grad).
              let ai = idx_to_ai this (m_rkhs_basis_inds this ! nat idx);
                  xi_gradient_mat_component =
                    dx_i_dx_i_dx_j_component (m_kernel this) (fst ai) idx_test (snd ai);
                  eigen_xi_gradient_mat_component = Map_VectorXd xi_gradient_mat_component D;
                  left_arg_hessian_component =
                    dx_i_dx_j_component (m_kernel this) (fst ai) idx_test (snd ai);
                  eigen_left_arg_hessian_component = Map_VectorXd left_arg_hessian_component D
              in (vec_sub eigen_xi_grad eigen_xi_gradient_mat_component,
                  vec_add eigen_beta_sum_grad
                    (vec_scale eigen_left_arg_hessian_component
                       (m_alpha_beta this ! nat (1 + idx)))))
              (eigen_xi_grad, eigen_beta_sum_grad);
          eigen_xi_grad = vec_scale eigen_xi_grad (m_alpha_beta this ! 0 / of_int N);
          eigen_xi_grad = vec_add eigen_xi_grad eigen_beta_sum_grad
      in Inr eigen_xi_grad)"

text \<open>
  \<open>Eigen::SelfAdjointEigenSolver<MatrixXd>\<close> belongs to the Eigen library: the model
  takes the solver as a parameter, a function from the matrix to the eigenvalues and
  the matrix of eigenvectors it reports. \<open>CMath::MACHINE_EPSILON\<close> is declared
  outside this file and is a parameter as well.
\<close>

record SelfAdjointEigenSolver =
  eigenvalues :: "float64_t SGVector"
  eigenvectors :: SGMatrix

definition pinv_self_adjoint ::
  "float64_t \<Rightarrow> (SGMatrix \<Rightarrow> SelfAdjointEigenSolver) \<Rightarrow> SGMatrix \<Rightarrow> error + SGMatrix" where
  "pinv_self_adjoint MACHINE_EPSILON new_solver A =
     (let m = num_rows A in
      if num_cols A \<noteq> m then Inl (ShogunException ''assertion A.num_cols == m failed'')
      else
        let eigen_A = Map_MatrixXd A m m;
            solver = new_solver eigen_A;
            s = eigenvalues solver;
            V = eigenvectors solver;
            pinv_tol = MACHINE_EPSILON * of_int m * maxCoeff s;
            inv_s = SGVector_alloc m;
            inv_s = for_loop m (\<lambda>i inv_s.
                      if s ! nat i > pinv_tol
                      then inv_s[nat i := 1 / s ! nat i]
                      else inv_s[nat i := 0]) inv_s;
            A_pinv = SGMatrix_alloc m m;
            eigen_pinv = mat_mul (mat_mul V (asDiagonal inv_s)) (transpose_m V)
        in Inr (A_pinv\<lparr>matrix := matrix eigen_pinv\<rparr>))"

text \<open>
  The sparse copy of the coefficients that \<open>hessian\<close> and \<open>hessian_diag\<close> both build:
  \<open>VectorXd::Zero(N*D)\<close> with \<open>m_alpha_beta[1+idx]\<close> written at the flat index of the
  basis entry.
\<close>

definition beta_full_fake :: "Nystrom \<Rightarrow> float64_t SGVector" where
  "beta_full_fake this =
     (let N = get_num_lhs this;
          D = get_num_dimensions this;
          m = get_num_rkhs_basis this
      in for_loop m (\<lambda>idx beta_full_fake.
           let ai = idx_to_ai this (m_rkhs_basis_inds this ! nat idx)
           in beta_full_fake[nat (fst ai * D + snd ai) := m_alpha_beta this ! nat (1 + idx)])
           (replicate (nat (N * D)) 0))"

definition hessian :: "Nystrom \<Rightarrow> index_t \<Rightarrow> error + SGMatrix" where
  "hessian this idx_test =
     (let N = get_num_lhs this;
          D = get_num_dimensions this;
          eigen_xi_hessian = SGMatrix_alloc D D;
          eigen_beta_sum_hessian = SGMatrix_alloc D D;
          beta_full_fake = beta_full_fake this;
          (eigen_xi_hessian, eigen_beta_sum_hessian) =
            for_loop N (\<lambda>idx_a (eigen_xi_hessian, eigen_beta_sum_hessian).
              let xi_hess_sum = dx_i_dx_j_dx_k_dx_k_row_sum (m_kernel this) idx_a idx_test;
                  eigen_xi_hess_sum = Map_MatrixXd xi_hess_sum D D;
                  eigen_xi_hessian = mat_add eigen_xi_hessian eigen_xi_hess_sum;
                  beta_a = segment beta_full_fake (idx_a * D) D;
                  beta_hess_sum = dx_i_dx_j_dx_k_dot_vec (m_kernel this) idx_a idx_test beta_a;
                  eigen_beta_hess_sum = Map_MatrixXd beta_hess_sum D D;
                  eigen_beta_sum_hessian = mat_sub eigen_beta_sum_hessian eigen_beta_hess_sum
              in (eigen_xi_hessian, eigen_beta_sum_hessian))
              (eigen_xi_hessian, eigen_beta_sum_hessian);
          eigen_xi_hessian = mat_scale eigen_xi_hessian (m_alpha_beta this ! 0 / of_int N);
          eigen_xi_hessian = mat_add eigen_xi_hessian eigen_beta_sum_hessian
      in Inr eigen_xi_hessian)"

definition hessian_diag :: "Nystrom \<Rightarrow> index_t \<Rightarrow> error + float64_t SGVector" where
  "hessian_diag this idx_test =
     (let N = get_num_lhs this;
          D = get_num_dimensions this;
          eigen_xi_hessian_diag = SGVector_alloc D;
          eigen_beta_sum_hessian_diag = SGVector_alloc D;
          beta_full_fake = beta_full_fake this;
          (eigen_xi_hessian_diag, eigen_beta_sum_hessian_diag) =
            for_loop N (\<lambda>idx_a.
              let beta_a = segment beta_full_fake (idx_a * D) D
              in for_loop D (\<lambda>i (eigen_xi_hessian_diag, eigen_beta_sum_hessian_diag).
                   (eigen_xi_hessian_diag[nat i := eigen_xi_hessian_diag ! nat i +
                      dx_i_dx_j_dx_k_dx_k_row_sum_component (m_kernel this) idx_a idx_test i i],
                    eigen_beta_sum_hessian_diag[nat i := eigen_beta_sum_hessian_diag ! nat i -
                      dx_i_dx_j_dx_k_dot_vec_component (m_kernel this) idx_a idx_test
                        beta_a i i])))
              (eigen_xi_hessian_diag, eigen_beta_sum_hessian_diag);
          eigen_xi_hessian_diag =
            vec_scale eigen_xi_hessian_diag (m_alpha_beta this ! 0 / of_int N);
          eigen_xi_hessian_diag = vec_add eigen_xi_hessian_diag eigen_beta_sum_hessian_diag
      in Inr eigen_xi_hessian_diag)"

definition leverage :: "Nystrom \<Rightarrow> error + float64_t SGVector" where
  "leverage this = Inl (ShogunException ''Not implemented yet.'')"

text \<open>
  Modelled from the spec: \<open>SGVector::range_fill\<close> is declared outside this file. The
  specification has the sampler permute the set \<open>{0, ..., N*D - 1}\<close>, so \<open>range_fill\<close>
  writes \<open>0, 1, ..., vlen-1\<close> into the vector.
\<close>

definition range_fill :: "index_t SGVector \<Rightarrow> index_t SGVector" where
  "range_fill v = [0..int (length v) - 1]"

text \<open>
  \<open>CMath::permute\<close> (a random permutation in place) and \<open>CMath::qsort\<close> (a sort in
  place) are declared outside this file as well: they are parameters of the model,
  functions from the vector before the call to the vector after it.
\<close>

definition sub_sample_rkhs_basis ::
  "(index_t SGVector \<Rightarrow> index_t SGVector) \<Rightarrow> (index_t SGVector \<Rightarrow> index_t SGVector) \<Rightarrow>
   'a Base_scheme \<Rightarrow> index_t \<Rightarrow> index_t SGVector" where
  "sub_sample_rkhs_basis permute qsort this num_rkhs_basis =
     (let N = get_num_lhs this;
          D = get_num_dimensions this;
          permutation = replicate (nat (N * D)) 0;
          permutation = range_fill permutation;
          permutation = permute permutation;
          rkhs_basis_inds = replicate (nat num_rkhs_basis) 0;
          rkhs_basis_inds =
            for_loop num_rkhs_basis (\<lambda>i rkhs_basis_inds.
              rkhs_basis_inds[nat i := permutation ! nat i]) rkhs_basis_inds
      in qsort rkhs_basis_inds)"

text \<open>
  The two constructors. Both run the constructor of \<open>Base\<close> on the data, the kernel
  and the regulariser first; the model receives the \<open>Base\<close> part it has built.
\<close>

definition Nystrom_basis_inds :: "Base \<Rightarrow> index_t SGVector \<Rightarrow> error + Nystrom" where
  "Nystrom_basis_inds base rkhs_basis_inds =
     Inr \<lparr>get_num_lhs = get_num_lhs base, get_num_dimensions = get_num_dimensions base,
          m_kernel = m_kernel base, m_lambda = m_lambda base,
          m_alpha_beta = m_alpha_beta base, m_rkhs_basis_inds = rkhs_basis_inds\<rparr>"

definition Nystrom_num_basis ::
  "(index_t SGVector \<Rightarrow> index_t SGVector) \<Rightarrow> (index_t SGVector \<Rightarrow> index_t SGVector) \<Rightarrow>
   Base \<Rightarrow> index_t \<Rightarrow> error + Nystrom" where
  "Nystrom_num_basis permute qsort base num_rkhs_basis =
     Inr \<lparr>get_num_lhs = get_num_lhs base, get_num_dimensions = get_num_dimensions base,
          m_kernel = m_kernel base, m_lambda = m_lambda base,
          m_alpha_beta = m_alpha_beta base,
          m_rkhs_basis_inds = sub_sample_rkhs_basis permute qsort base num_rkhs_basis\<rparr>"

section \<open>The linear system as the specification writes it\<close>

text \<open>
  The quantities of the specification of the system builder, written from its words
  and independently of the loops of \<open>build_system\<close>: the index codec
  \<open>a(k) = k div D\<close>, \<open>i(k) = k mod D\<close>, the vector \<open>h\<close>, the squared norm of \<open>xi\<close>, the
  column-sub-sampled Hessian \<open>G\<close> and the sub-sampled Hessian \<open>G_hat\<close>.
\<close>

definition spec_codec :: "index_t \<Rightarrow> index_t \<Rightarrow> index_t \<times> index_t" where
  "spec_codec D k = (k div D, k mod D)"



definition spec_G :: "Nystrom \<Rightarrow> index_t \<Rightarrow> index_t \<Rightarrow> float64_t" where
  "spec_G this r c =
     (let (a, i) = spec_codec (get_num_dimensions this) (m_rkhs_basis_inds this ! nat c);
          (b, j) = spec_codec (get_num_dimensions this) r
      in dx_dy_component (m_kernel this) a b i j)"

definition spec_G_hat :: "Nystrom \<Rightarrow> index_t \<Rightarrow> index_t \<Rightarrow> float64_t" where
  "spec_G_hat this r c = spec_G this (m_rkhs_basis_inds this ! nat r) c"

text \<open>
  The lifted coefficient vector of the specification of \<open>hessian\<close>: length \<open>N*D\<close>,
  zero everywhere except \<open>theta[1+k]\<close> at position \<open>J[k]\<close>, for \<open>k < m\<close>.
\<close>

definition spec_lifted_beta :: "Nystrom \<Rightarrow> float64_t SGVector" where
  "spec_lifted_beta this =
     map (\<lambda>p. \<Sum>k = 0..<length (m_rkhs_basis_inds this).
                 if m_rkhs_basis_inds this ! k = int p then m_alpha_beta this ! (1 + k) else 0)
         [0..<nat (get_num_lhs this * get_num_dimensions this)]"

text \<open>
  A valid input of the system builder: at least one sample and one coordinate, and
  every basis index inside \<open>[0, N*D)\<close>.
\<close>

definition valid_basis :: "Nystrom \<Rightarrow> bool" where
  "valid_basis this \<longleftrightarrow>
     0 < get_num_lhs this \<and> 0 < get_num_dimensions this \<and>
     list_all (\<lambda>k. 0 \<le> k \<and> k < get_num_lhs this * get_num_dimensions this)
       (m_rkhs_basis_inds this)"

text \<open>
  A fitted estimator: a valid basis of size \<open>m\<close> and a coefficient vector of length
  \<open>m + 1\<close>.
\<close>

definition fitted :: "Nystrom \<Rightarrow> bool" where
  "fitted this \<longleftrightarrow>
     valid_basis this \<and>
     length (m_alpha_beta this) = length (m_rkhs_basis_inds this) + 1"

section \<open>A concrete estimator\<close>

text \<open>
  A small estimator on which the functions above are evaluated: two samples, two
  coordinates, the basis entries \<open>0\<close> and \<open>3\<close>, and oracles that are simple
  functions of their indices. Its \<open>dx_dy_component\<close> is symmetric under exchanging
  the two (sample, coordinate) pairs, as the mixed derivative of a symmetric kernel
  is.
\<close>

definition example_kernel :: kernel_Base where
  "example_kernel =
     \<lparr>dx_component = (\<lambda>a b i. of_int (a + 2 * b + i)),
      dx_dx_component = (\<lambda>a b i. of_int (a * b - i)),
      dx_dy_component = (\<lambda>a b i j. of_int ((a + b) * (1 + i + j))),
      dx_dx_dy_component = (\<lambda>a b i j. of_int (a - b + i * j)),
      dx_dx_dy_dy_component = (\<lambda>a b i j. of_int (a + b + i + j)),
      dx_i_dx_i_dx_j_component = (\<lambda>a b i. [of_int (a + i), of_int (b - i)]),
      dx_i_dx_j_component = (\<lambda>a b i. [of_int (a * i), of_int (b + i)]),
      dx_i_dx_j_dx_k_dx_k_row_sum =
        (\<lambda>a t. \<lparr>num_rows = 2, num_cols = 2, matrix = (\<lambda>(r, c). of_int (a + t + r * c))\<rparr>),
      dx_i_dx_j_dx_k_dot_vec =
        (\<lambda>a t v. \<lparr>num_rows = 2, num_cols = 2,
                   matrix = (\<lambda>(r, c). of_int (a - t + r + c) * (v ! 0 + 2 * v ! 1))\<rparr>),
      dx_i_dx_j_dx_k_dx_k_row_sum_component = (\<lambda>a t i j. of_int (a + t + i * j)),
      dx_i_dx_j_dx_k_dot_vec_component =
        (\<lambda>a t v i j. of_int (a - t + i + j) * (v ! 0 + 2 * v ! 1))\<rparr>"

definition example_base :: Base where
  "example_base =
     \<lparr>get_num_lhs = 2, get_num_dimensions = 2, m_kernel = example_kernel,
      m_lambda = 1 / 2, m_alpha_beta = [1, 2, 3]\<rparr>"

definition example_nystrom :: Nystrom where
  "example_nystrom =
     \<lparr>get_num_lhs = 2, get_num_dimensions = 2, m_kernel = example_kernel,
      m_lambda = 1 / 2, m_alpha_beta = [1, 2, 3], m_rkhs_basis_inds = [0, 3]\<rparr>"

text \<open>
  Two symmetric matrices with what a symmetric eigensolver reports for them
  (eigenvalues in increasing order, one eigenvector per column): \<open>diag(2, 1)\<close> with
  eigenvalues \<open>1, 2\<close> and eigenvectors \<open>e1, e0\<close>, and \<open>diag(-3, 2)\<close> with eigenvalues
  \<open>-3, 2\<close> and eigenvectors \<open>e0, e1\<close>.
\<close>

definition example_diag :: SGMatrix where
  "example_diag =
     \<lparr>num_rows = 2, num_cols = 2,
      matrix = (\<lambda>(r, c). if r = c then (if r = 0 then 2 else 1) else 0)\<rparr>"

definition example_diag_solver :: "SGMatrix \<Rightarrow> SelfAdjointEigenSolver" where
  "example_diag_solver A =
     \<lparr>eigenvalues = [1, 2],
      eigenvectors = \<lparr>num_rows = 2, num_cols = 2,
                      matrix = (\<lambda>(r, c). if r + c = 1 then 1 else 0)\<rparr>\<rparr>"

definition example_indefinite :: SGMatrix where
  "example_indefinite =
     \<lparr>num_rows = 2, num_cols = 2,
      matrix = (\<lambda>(r, c). if r = c then (if r = 0 then - 3 else 2) else 0)\<rparr>"

definition example_indefinite_solver :: "SGMatrix \<Rightarrow> SelfAdjointEigenSolver" where
  "example_indefinite_solver A =
     \<lparr>eigenvalues = [- 3, 2],
      eigenvectors = \<lparr>num_rows = 2, num_cols = 2,
                      matrix = (\<lambda>(r, c). if r = c then 1 else 0)\<rparr>\<rparr>"

section \<open>Properties\<close>

lemma for_loop_0 [simp]: "n \<le> 0 \<Longrightarrow> for_loop n body s = s"
  by (simp add: for_loop_def)

lemma for_loop_step: "0 \<le> n \<Longrightarrow> for_loop (n + 1) body s = body n (for_loop n body s)"
  by (simp add: for_loop_def upto_rec2 [of 0 n])

subsection \<open>Loops that accumulate a sum\<close>

lemma sum_list_upto_int: "sum_list (map f [0..n - 1]) = (\<Sum>k = 0..<n. f k)" for n :: int
proof -
  have "{0..n - 1} = {0..<n}" by auto
  then show ?thesis
    using sum_set_upto_conv_sum_list_int [of f 0 "n - 1"] by simp
qed

lemma sum_int_nat: "(\<Sum>i = 0..<int n. f i) = (\<Sum>i = 0..<n. f (int i))"
proof (induction n)
  case 0
  show ?case by simp
next
  case (Suc n)
  have "{0..<int (Suc n)} = insert (int n) {0..<int n}" by auto
  then show ?case using Suc by (simp add: add.commute)
qed



subsection \<open>The norm of \<open>xi\<close>\<close>




lemma index_t_mul_overflow: "index_t_mul 46341 46341 = - 2147479015"
  by (simp add: index_t_mul_def)

lemma idx_to_ai_div_mod:
  "0 \<le> k \<Longrightarrow> 0 < get_num_dimensions this \<Longrightarrow>
   idx_to_ai this k = (k div get_num_dimensions this, k mod get_num_dimensions this)"
  by (simp add: idx_to_ai_def idx_to_ai_D_def signed_divide_int_def signed_modulo_int_def sgn_if)

lemma valid_basis_codec:
  assumes "valid_basis this" and "k \<in> set (m_rkhs_basis_inds this)"
  shows "idx_to_ai this k = (k div get_num_dimensions this, k mod get_num_dimensions this)"
  using assms by (intro idx_to_ai_div_mod) (auto simp: valid_basis_def list_all_iff)



subsection \<open>The log-density\<close>

lemma for_loop_acc2:
  assumes "\<And>i x y. body i (x, y) = (x + f i, y - g i)"
  shows "for_loop n body (x0::real, y0::real) = (x0 + (\<Sum>i = 0..<n. f i), y0 - (\<Sum>i = 0..<n. g i))"
proof -
  have "fold body xs (x0, y0) = (x0 + sum_list (map f xs), y0 - sum_list (map g xs))" for xs
    by (induction xs arbitrary: x0 y0) (simp_all add: assms algebra_simps)
  then show ?thesis
    by (simp add: for_loop_def sum_list_upto_int)
qed

lemma log_pdf_eq:
  "log_pdf this t =
     Inr (m_alpha_beta this ! 0 *
            (\<Sum>k = 0..<get_num_rkhs_basis this.
               dx_dx_component (m_kernel this)
                 (fst (idx_to_ai this (m_rkhs_basis_inds this ! nat k))) t
                 (snd (idx_to_ai this (m_rkhs_basis_inds this ! nat k))))
            / of_int (get_num_lhs this)
          - (\<Sum>k = 0..<get_num_rkhs_basis this.
               dx_component (m_kernel this)
                 (fst (idx_to_ai this (m_rkhs_basis_inds this ! nat k))) t
                 (snd (idx_to_ai this (m_rkhs_basis_inds this ! nat k)))
               * m_alpha_beta this ! nat (1 + k)))"
  unfolding log_pdf_def Let_def
  by (subst for_loop_acc2 [where
        f = "\<lambda>k. dx_dx_component (m_kernel this)
                 (fst (idx_to_ai this (m_rkhs_basis_inds this ! nat k))) t
                 (snd (idx_to_ai this (m_rkhs_basis_inds this ! nat k)))" and
        g = "\<lambda>k. dx_component (m_kernel this)
                 (fst (idx_to_ai this (m_rkhs_basis_inds this ! nat k))) t
                 (snd (idx_to_ai this (m_rkhs_basis_inds this ! nat k)))
               * m_alpha_beta this ! nat (1 + k)"]) simp_all

lemma sum_basis_positions:
  fixes f :: "index_t \<Rightarrow> float64_t"
  shows "(\<Sum>k = 0..<get_num_rkhs_basis this. f k)
       = (\<Sum>k = 0..<length (m_rkhs_basis_inds this). f (int k))"
  by (simp add: get_num_rkhs_basis_def sum_int_nat)

lemma valid_basis_codec_nth:
  assumes "valid_basis this" and "k < length (m_rkhs_basis_inds this)"
  shows "idx_to_ai this (m_rkhs_basis_inds this ! k) =
     (m_rkhs_basis_inds this ! k div get_num_dimensions this,
      m_rkhs_basis_inds this ! k mod get_num_dimensions this)"
  using assms by (intro valid_basis_codec) simp_all

text \<open>
  Claim C5. For every fitted estimator and every query index \<open>t\<close> (in \<open>[0, N)\<close> or
  not), \<open>log_pdf(t)\<close> returns \<open>m_alpha_beta[0]\<close> times the sum over the basis positions
  \<open>k < m\<close> of \<open>dx_dx_component(a_k, t, i_k)\<close>, divided by \<open>N\<close>, minus the sum over
  \<open>k < m\<close> of \<open>dx_component(a_k, t, i_k) * m_alpha_beta[1+k]\<close>, where \<open>a_k = J[k] div D\<close>
  and \<open>i_k = J[k] mod D\<close>: the second sum enters with a minus sign.
\<close>

theorem log_pdf_formula:
  assumes "fitted this"
  shows "log_pdf this t =
     Inr (m_alpha_beta this ! 0 *
            (\<Sum>k = 0..<length (m_rkhs_basis_inds this).
               dx_dx_component (m_kernel this)
                 (m_rkhs_basis_inds this ! k div get_num_dimensions this) t
                 (m_rkhs_basis_inds this ! k mod get_num_dimensions this))
            / of_int (get_num_lhs this)
          - (\<Sum>k = 0..<length (m_rkhs_basis_inds this).
               dx_component (m_kernel this)
                 (m_rkhs_basis_inds this ! k div get_num_dimensions this) t
                 (m_rkhs_basis_inds this ! k mod get_num_dimensions this)
               * m_alpha_beta this ! (1 + k)))"
proof -
  have v: "valid_basis this"
    using assms by (simp add: fitted_def)
  let ?J = "m_rkhs_basis_inds this" and ?D = "get_num_dimensions this"
  have xi: "(\<Sum>k = 0..<length ?J.
               dx_dx_component (m_kernel this)
                 (fst (idx_to_ai this (?J ! nat (int k)))) t
                 (snd (idx_to_ai this (?J ! nat (int k)))))
          = (\<Sum>k = 0..<length ?J.
               dx_dx_component (m_kernel this) (?J ! k div ?D) t (?J ! k mod ?D))"
    by (rule sum.cong) (simp_all add: valid_basis_codec_nth [OF v])
  have beta: "(\<Sum>k = 0..<length ?J.
               dx_component (m_kernel this)
                 (fst (idx_to_ai this (?J ! nat (int k)))) t
                 (snd (idx_to_ai this (?J ! nat (int k))))
               * m_alpha_beta this ! nat (1 + int k))
          = (\<Sum>k = 0..<length ?J.
               dx_component (m_kernel this) (?J ! k div ?D) t (?J ! k mod ?D)
               * m_alpha_beta this ! (1 + k))"
    by (rule sum.cong) (simp_all add: valid_basis_codec_nth [OF v] nat_add_distrib)
  show ?thesis
    unfolding log_pdf_eq sum_basis_positions xi beta ..
qed

theorem log_pdf_formula_witness:
  "log_pdf example_nystrom 1 =
     Inr ([1, 2, 3] ! 0 *
            (\<Sum>k = 0..<2. dx_dx_component example_kernel ([0, 3] ! k div 2) 1 ([0, 3] ! k mod 2))
            / 2
          - (\<Sum>k = 0..<2. dx_component example_kernel ([0, 3] ! k div 2) 1 ([0, 3] ! k mod 2)
               * [1, 2, 3] ! (1 + k))) \<and>
   log_pdf example_nystrom 1 = Inr (- 16)"
proof -
  have f: "fitted example_nystrom"
    by (simp add: fitted_def valid_basis_def example_nystrom_def)
  have e: "m_rkhs_basis_inds example_nystrom = [0, 3]" "get_num_lhs example_nystrom = 2"
    "get_num_dimensions example_nystrom = 2" "m_kernel example_nystrom = example_kernel"
    "m_alpha_beta example_nystrom = [1, 2, 3]"
    by (simp_all add: example_nystrom_def)
  have I: "{0..<2::nat} = {0, 1}" by auto
  note T = log_pdf_formula [OF f, of 1, unfolded e]
  have "log_pdf example_nystrom 1 =
     Inr ([1, 2, 3] ! 0 *
            (\<Sum>k = 0..<2. dx_dx_component example_kernel ([0, 3] ! k div 2) 1 ([0, 3] ! k mod 2))
            / 2
          - (\<Sum>k = 0..<2. dx_component example_kernel ([0, 3] ! k div 2) 1 ([0, 3] ! k mod 2)
               * [1, 2, 3] ! (1 + k)))"
    using T by (simp add: I)
  moreover have "log_pdf example_nystrom 1 = Inr (- 16)"
    by code_simp
  ultimately show ?thesis by (rule conjI)
qed

subsection \<open>The constructor with a user-defined basis\<close>

text \<open>
  Claim C3, as amended. The constructor that receives the basis indices stores the
  sequence it is given, unchanged and in the order given, for every sequence: it
  validates nothing, sorts nothing and never fails.
\<close>

theorem explicit_basis_stored_unchanged:
  "\<exists>est. Nystrom_basis_inds base J = Inr est \<and> m_rkhs_basis_inds est = J \<and>
         get_num_lhs est = get_num_lhs base \<and>
         get_num_dimensions est = get_num_dimensions base \<and>
         m_kernel est = m_kernel base \<and> m_lambda est = m_lambda base"
  by (simp add: Nystrom_basis_inds_def)

text \<open>
  Claim C3 as stated fails: with \<open>N*D = 4\<close>, the sequence \<open>5, 1, 1\<close> (an entry out of
  range, a duplicate, not ascending) is accepted and stored as it is, and the empty
  sequence is accepted too.
\<close>

theorem explicit_basis_not_validated:
  "\<not> isl (Nystrom_basis_inds example_base [5, 1, 1]) \<and>
   m_rkhs_basis_inds (projr (Nystrom_basis_inds example_base [5, 1, 1])) = [5, 1, 1] \<and>
   \<not> isl (Nystrom_basis_inds example_base [])"
  by code_simp

subsection \<open>The constructor with a sub-sampled basis\<close>

lemma copy_loop:
  "n \<le> length r \<Longrightarrow> n \<le> length p \<Longrightarrow>
   for_loop (int n) (\<lambda>i r. r[nat i := p ! nat i]) r = take n p @ drop n r"
proof (induction n)
  case 0
  show ?case by simp
next
  case (Suc n)
  have "for_loop (int (Suc n)) (\<lambda>i r. r[nat i := p ! nat i]) r
      = (for_loop (int n) (\<lambda>i r. r[nat i := p ! nat i]) r)[n := p ! n]"
    using for_loop_step [of "int n" "\<lambda>i r. r[nat i := p ! nat i]" r]
    by (simp add: add.commute)
  also have "\<dots> = (take n p @ drop n r)[n := p ! n]"
    using Suc by simp
  also have "\<dots> = take n p @ (drop n r)[0 := p ! n]"
    using Suc.prems by (simp add: list_update_append)
  also have "drop n r = r ! n # drop (Suc n) r"
    using Suc.prems by (simp add: Cons_nth_drop_Suc)
  also have "take n p @ (r ! n # drop (Suc n) r)[0 := p ! n] = take (Suc n) p @ drop (Suc n) r"
    using Suc.prems by (simp add: take_Suc_conv_app_nth)
  finally show ?case .
qed

lemma sub_sample_rkhs_basis_eq:
  assumes "0 \<le> m" and "m \<le> get_num_lhs this * get_num_dimensions this"
    and "\<forall>xs. mset (permute xs) = mset xs"
  shows "sub_sample_rkhs_basis permute qsort this m =
         qsort (take (nat m) (permute [0..get_num_lhs this * get_num_dimensions this - 1]))"
proof -
  let ?ND = "get_num_lhs this * get_num_dimensions this"
  let ?p = "permute [0..?ND - 1]"
  have len: "length ?p = nat ?ND"
    using assms(3) mset_eq_length [of ?p "[0..?ND - 1]"] by simp
  have "for_loop (int (nat m)) (\<lambda>i r. r[nat i := ?p ! nat i]) (replicate (nat m) 0)
        = take (nat m) ?p @ drop (nat m) (replicate (nat m) 0)"
    by (rule copy_loop) (use assms len in simp_all)
  then show ?thesis
    using assms(1,2) by (simp add: sub_sample_rkhs_basis_def Let_def range_fill_def)
qed

text \<open>
  Claim C9. Let \<open>permute\<close> return a permutation of its argument and \<open>qsort\<close> sort its
  argument ascending. For a target size \<open>m\<close> with \<open>1 \<le> m \<le> N*D\<close>, the constructor
  stores the first \<open>m\<close> entries of the permuted sequence \<open>0, ..., N*D - 1\<close>, sorted:
  exactly \<open>m\<close> distinct indices with \<open>0 \<le> J[0] < J[1] < ... < J[m-1] < N*D\<close>.
\<close>

theorem random_basis_strictly_sorted:
  assumes "\<forall>xs. mset (permute xs) = mset xs"
    and "\<forall>xs. sorted (qsort xs) \<and> mset (qsort xs) = mset xs"
    and "1 \<le> m" and "m \<le> get_num_lhs base * get_num_dimensions base"
  shows "\<exists>est. Nystrom_num_basis permute qsort base m = Inr est \<and>
           m_rkhs_basis_inds est =
             qsort (take (nat m)
                      (permute [0..get_num_lhs base * get_num_dimensions base - 1])) \<and>
           int (length (m_rkhs_basis_inds est)) = m \<and>
           distinct (m_rkhs_basis_inds est) \<and>
           sorted_wrt (<) (m_rkhs_basis_inds est) \<and>
           list_all (\<lambda>k. 0 \<le> k \<and> k < get_num_lhs base * get_num_dimensions base)
             (m_rkhs_basis_inds est)"
proof -
  let ?ND = "get_num_lhs base * get_num_dimensions base"
  let ?p = "permute [0..?ND - 1]"
  let ?J = "qsort (take (nat m) ?p)"
  have J: "sub_sample_rkhs_basis permute qsort base m = ?J"
    using assms by (intro sub_sample_rkhs_basis_eq) simp_all
  have msp: "mset ?p = mset [0..?ND - 1]" using assms(1) by simp
  have lenp: "length ?p = nat ?ND"
    using mset_eq_length [OF msp] by simp
  have dp: "distinct ?p"
    using msp distinct_upto mset_eq_imp_distinct_iff by blast
  have setp: "set ?p = {0..?ND - 1}"
    using mset_eq_setD [OF msp] by simp
  have msJ: "mset ?J = mset (take (nat m) ?p)" using assms(2) by simp
  have lenJ: "length ?J = nat m"
    using mset_eq_length [OF msJ] lenp assms(4) by simp
  have dJ: "distinct ?J"
    using msJ dp distinct_take mset_eq_imp_distinct_iff by blast
  have "set ?J = set (take (nat m) ?p)" using mset_eq_setD [OF msJ] .
  then have setJ: "set ?J \<subseteq> {0..?ND - 1}"
    using set_take_subset [of "nat m" ?p] setp by simp
  have sJ: "sorted_wrt (<) ?J"
    using assms(2) dJ by (simp add: strict_sorted_iff)
  have rng: "list_all (\<lambda>k. 0 \<le> k \<and> k < ?ND) ?J"
    using setJ by (auto simp: list_all_iff)
  show ?thesis
    using J lenJ dJ sJ rng assms(3) by (simp add: Nystrom_num_basis_def)
qed

theorem random_basis_strictly_sorted_witness:
  "\<exists>est. Nystrom_num_basis rev sort example_base 3 = Inr est \<and>
         m_rkhs_basis_inds est = [1, 2, 3]"
proof -
  have p: "\<forall>xs::int list. mset (rev xs) = mset xs" by simp
  have q: "\<forall>xs::int list. sorted (sort xs) \<and> mset (sort xs) = mset xs" by simp
  have m: "(3::int) \<le> get_num_lhs example_base * get_num_dimensions example_base"
    by (simp add: example_base_def)
  have e: "sort (take (nat 3) (rev [0..get_num_lhs example_base * get_num_dimensions example_base - 1])) = [1, 2, 3::int]"
    by code_simp
  show ?thesis
    using random_basis_strictly_sorted [OF p q _ m] e by auto
qed

subsection \<open>Loop invariants\<close>

lemma for_loop_invariant:
  assumes "0 \<le> n" and "P 0 s"
    and "\<And>i s. 0 \<le> i \<Longrightarrow> i < n \<Longrightarrow> P i s \<Longrightarrow> P (i + 1) (body i s)"
  shows "P n (for_loop n body s)"
proof -
  have "k \<le> nat n \<Longrightarrow> P (int k) (for_loop (int k) body s)" for k
  proof (induction k)
    case 0
    show ?case using assms(2) by simp
  next
    case (Suc k)
    have "P (int k + 1) (body (int k) (for_loop (int k) body s))"
      using Suc by (intro assms(3)) simp_all
    then show ?case
      using for_loop_step [of "int k" body s] by (simp add: add.commute)
  qed
  from this [of "nat n"] show ?thesis using assms(1) by simp
qed

lemma fill_column:
  "for_loop n (\<lambda>row M. set_elem M row c (v row)) M =
     M\<lparr>matrix := (\<lambda>(r, c'). if c' = c \<and> 0 \<le> r \<and> r < n then v r else matrix M (r, c'))\<rparr>"
proof (cases "0 \<le> n")
  case False
  then have "(\<lambda>(r, c'). if c' = c \<and> 0 \<le> r \<and> r < n then v r else matrix M (r, c')) = matrix M"
    by (intro ext) auto
  with False show ?thesis by simp
next
  case True
  let ?f = "\<lambda>i. (\<lambda>(r, c'). if c' = c \<and> 0 \<le> r \<and> r < i then v r else matrix M (r, c'))"
  have "for_loop n (\<lambda>row M. set_elem M row c (v row)) M = M\<lparr>matrix := ?f n\<rparr>"
  proof (rule for_loop_invariant [where P = "\<lambda>i M'. M' = M\<lparr>matrix := ?f i\<rparr>"])
    show "0 \<le> n" by fact
    have "?f 0 = matrix M" by (intro ext) auto
    then show "M = M\<lparr>matrix := ?f 0\<rparr>" by simp
  next
    fix i M'
    assume "0 \<le> i" "i < n" "M' = M\<lparr>matrix := ?f i\<rparr>"
    moreover from \<open>0 \<le> i\<close> have "(?f i)((i, c) := v i) = ?f (i + 1)"
      by (intro ext) (auto split: if_splits)
    ultimately show "set_elem M' i c (v i) = M\<lparr>matrix := ?f (i + 1)\<rparr>"
      by (simp add: set_elem_def)
  qed
  then show ?thesis .
qed

lemma mirror_loop:
  "for_loop n (\<lambda>idx A. set_elem A 0 (idx + 1) (elem A (idx + 1) 0)) A =
     A\<lparr>matrix := (\<lambda>(r, c). if r = 0 \<and> 1 \<le> c \<and> c \<le> n then matrix A (c, 0)
                             else matrix A (r, c))\<rparr>"
proof (cases "0 \<le> n")
  case False
  then have "(\<lambda>(r, c). if r = 0 \<and> 1 \<le> c \<and> c \<le> n then matrix A (c, 0)
                             else matrix A (r, c)) = matrix A"
    by (intro ext) auto
  with False show ?thesis by simp
next
  case True
  let ?f = "\<lambda>i. (\<lambda>(r, c). if r = 0 \<and> 1 \<le> c \<and> c \<le> i then matrix A (c, 0)
                             else matrix A (r, c))"
  show ?thesis
  proof (rule for_loop_invariant [where P = "\<lambda>i M'. M' = A\<lparr>matrix := ?f i\<rparr>"])
    show "0 \<le> n" by fact
    have "?f 0 = matrix A" by (intro ext) auto
    then show "A = A\<lparr>matrix := ?f 0\<rparr>" by simp
  next
    fix i M'
    assume "0 \<le> i" "i < n" "M' = A\<lparr>matrix := ?f i\<rparr>"
    moreover from \<open>0 \<le> i\<close> have "(?f i)((0, i + 1) := matrix A (i + 1, 0)) = ?f (i + 1)"
      by (intro ext) (auto split: if_splits)
    ultimately show "set_elem M' 0 (i + 1) (elem M' (i + 1) 0) = A\<lparr>matrix := ?f (i + 1)\<rparr>"
      by (simp add: set_elem_def elem_def)
  qed
qed

lemma slot_acc_fold:
  fixes h :: "real list"
  assumes "\<And>i h. body i h = h[p := h ! p + g i]"
  shows "fold body xs h = h[p := h ! p + sum_list (map g xs)]"
proof (induction xs arbitrary: h)
  case Nil
  show ?case by simp
next
  case (Cons x xs)
  have step: "fold body (x # xs) h = (body x h)[p := body x h ! p + sum_list (map g xs)]"
    by (simp add: Cons)
  have body: "body x h = h[p := h ! p + g x]"
    by (rule assms)
  show ?case
  proof (cases "p < length h")
    case True
    then show ?thesis unfolding step body by (simp add: add.assoc)
  next
    case False
    then have "h[p := y] = h" for y by (simp add: list_update_beyond)
    then show ?thesis unfolding step body by simp
  qed
qed

lemma slot_acc:
  "for_loop n (\<lambda>i h. h[p := h ! p + g i]) h = h[p := h ! p + (\<Sum>i = 0..<n. g i)]"
  for h :: "real list"
  using slot_acc_fold [of "\<lambda>i h. h[p := h ! p + g i]" p g "[0..n - 1]" h]
  by (simp add: for_loop_def sum_list_upto_int)

lemma slot_loop:
  "n \<le> length r \<Longrightarrow>
   for_loop (int n) (\<lambda>i r. r[nat i := F i (r ! nat i)]) r =
     map (\<lambda>k. F (int k) (r ! k)) [0..<n] @ drop n r"
proof (induction n)
  case 0
  show ?case by simp
next
  case (Suc n)
  let ?body = "\<lambda>i r. r[nat i := F i (r ! nat i)]"
  let ?done = "map (\<lambda>k. F (int k) (r ! k)) [0..<n]"
  have IH: "for_loop (int n) ?body r = ?done @ drop n r"
    using Suc by simp
  have "for_loop (int (Suc n)) ?body r = (?done @ drop n r)[n := F (int n) ((?done @ drop n r) ! n)]"
    using for_loop_step [of "int n" ?body r] IH by (simp add: add.commute)
  also have "(?done @ drop n r) ! n = r ! n"
    using Suc.prems by (simp add: nth_append)
  also have "(?done @ drop n r)[n := F (int n) (r ! n)] = ?done @ (drop n r)[0 := F (int n) (r ! n)]"
    by (simp add: list_update_append)
  also have "drop n r = r ! n # drop (Suc n) r"
    using Suc.prems by (simp add: Cons_nth_drop_Suc)
  finally show ?case by simp
qed

subsection \<open>The vector \<open>h\<close>\<close>

lemma slot_acc_fun:
  "for_loop n (\<lambda>i h. h[p := h ! p + g i]) = (\<lambda>h::real list. h[p := h ! p + (\<Sum>i = 0..<n. g i)])"
  by (rule ext) (rule slot_acc)

lemma compute_h_eq:
  "compute_h this =
     map (\<lambda>k. (\<Sum>a = 0..<get_num_lhs this. \<Sum>i = 0..<get_num_dimensions this.
                  dx_dx_dy_component (m_kernel this) a (fst (idx_to_ai this k)) i
                    (snd (idx_to_ai this k))) / of_int (get_num_lhs this))
         (m_rkhs_basis_inds this)"
proof -
  let ?J = "m_rkhs_basis_inds this"
  let ?S = "\<lambda>k. \<Sum>a = 0..<get_num_lhs this. \<Sum>i = 0..<get_num_dimensions this.
                  dx_dx_dy_component (m_kernel this) a (fst (idx_to_ai this k)) i
                    (snd (idx_to_ai this k))"
  have "for_loop (int (length ?J)) (\<lambda>idx h. h[nat idx := h ! nat idx + ?S (?J ! nat idx)])
          (replicate (length ?J) 0)
        = map (\<lambda>k. replicate (length ?J) 0 ! k + ?S (?J ! nat (int k))) [0..<length ?J]
            @ drop (length ?J) (replicate (length ?J) 0)"
    by (rule slot_loop [where F = "\<lambda>idx x. x + ?S (?J ! nat idx)"]) simp
  also have "\<dots> = map (\<lambda>k. ?S (?J ! k)) [0..<length ?J]"
    by simp
  also have "\<dots> = map ?S ?J"
    by (intro nth_equalityI) simp_all
  finally have loop: "for_loop (int (length ?J))
          (\<lambda>idx h. h[nat idx := h ! nat idx + ?S (?J ! nat idx)])
          (replicate (length ?J) 0) = map ?S ?J" .
  show ?thesis
    unfolding compute_h_def Let_def slot_acc_fun get_num_rkhs_basis_def SGVector_alloc_def
    by (simp add: loop vec_div_def)
qed

subsection \<open>The loops of the system builder\<close>

lemma sub_sampled_hessian_loop:
  fixes g :: "index_t \<Rightarrow> index_t \<Rightarrow> float64_t" and sel :: "index_t \<Rightarrow> index_t"
  assumes "0 \<le> m"
  shows "for_loop m (\<lambda>idx (G, Gh).
            (for_loop ND (\<lambda>row G. set_elem G row idx (g idx row)) G,
             for_loop m (\<lambda>row Gh. set_elem Gh row idx
                 (elem (for_loop ND (\<lambda>row G. set_elem G row idx (g idx row)) G) (sel row) idx))
               Gh))
           (SGMatrix_alloc ND m, SGMatrix_alloc m m)
         = (\<lparr>num_rows = ND, num_cols = m,
             matrix = (\<lambda>(r, c). if 0 \<le> c \<and> c < m \<and> 0 \<le> r \<and> r < ND then g c r else 0)\<rparr>,
            \<lparr>num_rows = m, num_cols = m,
             matrix = (\<lambda>(r, c). if 0 \<le> c \<and> c < m \<and> 0 \<le> r \<and> r < m \<and>
                                   0 \<le> sel r \<and> sel r < ND then g c (sel r) else 0)\<rparr>)"
proof -
  let ?GF = "\<lambda>i. (\<lambda>(r, c). if 0 \<le> c \<and> c < i \<and> 0 \<le> r \<and> r < ND then g c r else 0)"
  let ?GhF = "\<lambda>i. (\<lambda>(r, c). if 0 \<le> c \<and> c < i \<and> 0 \<le> r \<and> r < m \<and>
                                   0 \<le> sel r \<and> sel r < ND then g c (sel r) else 0)"
  let ?P = "\<lambda>i s. s = (\<lparr>num_rows = ND, num_cols = m, matrix = ?GF i\<rparr>,
                       \<lparr>num_rows = m, num_cols = m, matrix = ?GhF i\<rparr>)"
  show ?thesis
  proof (rule for_loop_invariant [where P = ?P])
    show "0 \<le> m" by fact
    have "?GF 0 = (\<lambda>_. 0)" "?GhF 0 = (\<lambda>_. 0)" by (intro ext; auto)+
    then show "?P 0 (SGMatrix_alloc ND m, SGMatrix_alloc m m)"
      by (simp add: SGMatrix_alloc_def)
  next
    fix i s
    assume i: "0 \<le> i" "i < m" and s: "?P i s"
    show "?P (i + 1) ((\<lambda>idx (G, Gh).
            (for_loop ND (\<lambda>row G. set_elem G row idx (g idx row)) G,
             for_loop m (\<lambda>row Gh. set_elem Gh row idx
                 (elem (for_loop ND (\<lambda>row G. set_elem G row idx (g idx row)) G) (sel row) idx))
               Gh)) i s)"
      unfolding s fill_column
      using i by (auto simp: elem_def fun_eq_iff)
  qed
qed


lemma Map_compute_h: "Map_VectorXd (compute_h this) (get_num_rkhs_basis this) = compute_h this"
  by (simp add: compute_h_eq get_num_rkhs_basis_def Map_VectorXd_def)

lemma m_nonneg: "0 \<le> get_num_rkhs_basis this"
  by (simp add: get_num_rkhs_basis_def)

lemmas build_system_loops =
  sub_sampled_hessian_loop [OF m_nonneg] mirror_loop prod.case fst_conv snd_conv Map_compute_h

lemmas matrix_ops =
  elem_def set_col_segment_def set_block_def set_elem_def SGMatrix_alloc_def Map_MatrixXd_def
  mat_add_def mat_div_def mat_scale_def mat_mul_def transpose_m_def



lemma build_system_row0:
  "0 \<le> c \<Longrightarrow> c < get_num_rkhs_basis this \<Longrightarrow>
   elem (fst (build_system this)) 0 (1 + c) = elem (fst (build_system this)) (1 + c) 0"
  apply (unfold build_system_def Let_def)
  apply (simp only: build_system_loops)
  apply (simp add: matrix_ops)
  done

subsection \<open>The entries of the system in the words of the specification\<close>

lemma idx_to_ai_spec:
  "0 \<le> k \<Longrightarrow> 0 < get_num_dimensions this \<Longrightarrow>
   idx_to_ai this k = spec_codec (get_num_dimensions this) k"
  by (simp add: idx_to_ai_def idx_to_ai_D_def spec_codec_def signed_divide_int_def
      signed_modulo_int_def sgn_if)

lemma valid_basis_nth:
  assumes "valid_basis this" and "0 \<le> k" and "k < get_num_rkhs_basis this"
  shows "0 \<le> m_rkhs_basis_inds this ! nat k"
    and "m_rkhs_basis_inds this ! nat k < get_num_lhs this * get_num_dimensions this"
proof -
  have "nat k < length (m_rkhs_basis_inds this)"
    using assms(2,3) by (simp add: get_num_rkhs_basis_def)
  then have "m_rkhs_basis_inds this ! nat k \<in> set (m_rkhs_basis_inds this)"
    by (rule nth_mem)
  then show "0 \<le> m_rkhs_basis_inds this ! nat k"
    and "m_rkhs_basis_inds this ! nat k < get_num_lhs this * get_num_dimensions this"
    using assms(1) by (auto simp: valid_basis_def list_all_iff)
qed





lemma build_system_block:
  assumes "valid_basis this"
    and "0 \<le> r" "r < get_num_rkhs_basis this" "0 \<le> c" "c < get_num_rkhs_basis this"
  shows "elem (fst (build_system this)) (1 + r) (1 + c) =
     (\<Sum>p = 0..<get_num_lhs this * get_num_dimensions this. spec_G this p r * spec_G this p c)
        / of_int (get_num_lhs this)
       + m_lambda this * spec_G_hat this r c"
proof -
  note J = valid_basis_nth [OF assms(1)]
  have D: "0 < get_num_dimensions this"
    using assms(1) by (simp add: valid_basis_def)
  have G: "0 \<le> p \<Longrightarrow> 0 \<le> k \<Longrightarrow> k < get_num_rkhs_basis this \<Longrightarrow>
      dx_dy_component (m_kernel this)
        (fst (idx_to_ai this (m_rkhs_basis_inds this ! nat k))) (fst (idx_to_ai this p))
        (snd (idx_to_ai this (m_rkhs_basis_inds this ! nat k))) (snd (idx_to_ai this p))
      = spec_G this p k" for p k
    using D J(1) [of k] by (simp add: spec_G_def idx_to_ai_spec case_prod_beta)
  have "elem (fst (build_system this)) (1 + r) (1 + c) =
     (\<Sum>p = 0..<get_num_lhs this * get_num_dimensions this.
         (if 0 \<le> p \<and> p < get_num_lhs this * get_num_dimensions this
          then dx_dy_component (m_kernel this)
             (fst (idx_to_ai this (m_rkhs_basis_inds this ! nat r))) (fst (idx_to_ai this p))
             (snd (idx_to_ai this (m_rkhs_basis_inds this ! nat r))) (snd (idx_to_ai this p))
          else 0) *
         (if 0 \<le> p \<and> p < get_num_lhs this * get_num_dimensions this
          then dx_dy_component (m_kernel this)
             (fst (idx_to_ai this (m_rkhs_basis_inds this ! nat c))) (fst (idx_to_ai this p))
             (snd (idx_to_ai this (m_rkhs_basis_inds this ! nat c))) (snd (idx_to_ai this p))
          else 0))
        / of_int (get_num_lhs this)
       + dx_dy_component (m_kernel this)
             (fst (idx_to_ai this (m_rkhs_basis_inds this ! nat c)))
             (fst (idx_to_ai this (m_rkhs_basis_inds this ! nat r)))
             (snd (idx_to_ai this (m_rkhs_basis_inds this ! nat c)))
             (snd (idx_to_ai this (m_rkhs_basis_inds this ! nat r))) * m_lambda this"
    using assms(2-5) J [of r]
    apply (unfold build_system_def Let_def)
    apply (simp only: build_system_loops)
    apply (simp add: matrix_ops sum_list_upto_int)
    done
  also have "(\<Sum>p = 0..<get_num_lhs this * get_num_dimensions this.
         (if 0 \<le> p \<and> p < get_num_lhs this * get_num_dimensions this
          then dx_dy_component (m_kernel this)
             (fst (idx_to_ai this (m_rkhs_basis_inds this ! nat r))) (fst (idx_to_ai this p))
             (snd (idx_to_ai this (m_rkhs_basis_inds this ! nat r))) (snd (idx_to_ai this p))
          else 0) *
         (if 0 \<le> p \<and> p < get_num_lhs this * get_num_dimensions this
          then dx_dy_component (m_kernel this)
             (fst (idx_to_ai this (m_rkhs_basis_inds this ! nat c))) (fst (idx_to_ai this p))
             (snd (idx_to_ai this (m_rkhs_basis_inds this ! nat c))) (snd (idx_to_ai this p))
          else 0))
      = (\<Sum>p = 0..<get_num_lhs this * get_num_dimensions this.
           spec_G this p r * spec_G this p c)"
    using assms(2-5) by (intro sum.cong) (simp_all add: G)
  also have "dx_dy_component (m_kernel this)
             (fst (idx_to_ai this (m_rkhs_basis_inds this ! nat c)))
             (fst (idx_to_ai this (m_rkhs_basis_inds this ! nat r)))
             (snd (idx_to_ai this (m_rkhs_basis_inds this ! nat c)))
             (snd (idx_to_ai this (m_rkhs_basis_inds this ! nat r)))
      = spec_G this (m_rkhs_basis_inds this ! nat r) c"
    using assms(2-5) J(1) [of r] by (simp add: G)
  finally show ?thesis
    by (simp add: spec_G_hat_def mult.commute)
qed




subsection \<open>The assembled system\<close>




subsection \<open>Symmetry of the system matrix\<close>

lemma codec_in_range:
  fixes k N D :: int
  assumes "0 \<le> k" and "k < N * D" and "0 < D"
  shows "0 \<le> k div D" and "k div D < N" and "0 \<le> k mod D" and "k mod D < D"
proof -
  show "0 \<le> k div D" using assms(1,3) by (simp add: pos_imp_zdiv_nonneg_iff)
  show "0 \<le> k mod D" "k mod D < D" using assms(3) by simp_all
  show "k div D < N"
  proof (rule ccontr)
    assume "\<not> k div D < N"
    then have "N * D \<le> k div D * D"
      using assms(3) by (intro mult_right_mono) simp_all
    moreover have "k div D * D \<le> k"
      using pos_mod_sign [OF assms(3), of k] div_mult_mod_eq [of k D] by linarith
    ultimately show False using assms(2) by simp
  qed
qed

lemma build_system_first_row:
  assumes "c \<in> {0..get_num_rkhs_basis this}"
  shows "elem (fst (build_system this)) 0 c = elem (fst (build_system this)) c 0"
proof (cases "c = 0")
  case True
  then show ?thesis by simp
next
  case False
  with assms have "0 \<le> c - 1" "c - 1 < get_num_rkhs_basis this" by simp_all
  from build_system_row0 [OF this] show ?thesis by simp
qed

lemma spec_G_hat_symmetric:
  assumes v: "valid_basis this"
    and sym: "\<forall>a\<in>{0..<get_num_lhs this}. \<forall>b\<in>{0..<get_num_lhs this}.
              \<forall>i\<in>{0..<get_num_dimensions this}. \<forall>j\<in>{0..<get_num_dimensions this}.
                dx_dy_component (m_kernel this) a b i j
                  = dx_dy_component (m_kernel this) b a j i"
    and r: "0 \<le> r" "r < get_num_rkhs_basis this"
    and c: "0 \<le> c" "c < get_num_rkhs_basis this"
  shows "spec_G_hat this r c = spec_G_hat this c r"
proof -
  let ?D = "get_num_dimensions this" and ?J = "m_rkhs_basis_inds this"
  have D: "0 < ?D" using v by (simp add: valid_basis_def)
  note Jr = valid_basis_nth [OF v r] and Jc = valid_basis_nth [OF v c]
  note cr = codec_in_range [OF Jr D] and cc = codec_in_range [OF Jc D]
  have "dx_dy_component (m_kernel this) (?J ! nat c div ?D) (?J ! nat r div ?D)
          (?J ! nat c mod ?D) (?J ! nat r mod ?D)
      = dx_dy_component (m_kernel this) (?J ! nat r div ?D) (?J ! nat c div ?D)
          (?J ! nat r mod ?D) (?J ! nat c mod ?D)"
    using sym cr cc by simp
  then show ?thesis
    by (simp add: spec_G_hat_def spec_G_def spec_codec_def)
qed

text \<open>
  Claim C6. For every valid input whose kernel oracle has the exchange symmetry of
  the mixed derivative of a symmetric kernel,
  \<open>dx_dy_component(a, b, i, j) = dx_dy_component(b, a, j, i)\<close> on the samples and
  coordinates of the data, the matrix \<open>A\<close> returned by \<open>build_system\<close> is symmetric:
  \<open>A[r,c] = A[c,r]\<close> for all \<open>r\<close>, \<open>c\<close> in \<open>[0, m]\<close>, in the first row and column, which the
  code mirrors, and in the inner block \<open>G^T G / N + lambda * G_hat\<close>, which it computes.
\<close>

theorem build_system_symmetry:
  assumes v: "valid_basis this"
    and sym: "\<forall>a\<in>{0..<get_num_lhs this}. \<forall>b\<in>{0..<get_num_lhs this}.
              \<forall>i\<in>{0..<get_num_dimensions this}. \<forall>j\<in>{0..<get_num_dimensions this}.
                dx_dy_component (m_kernel this) a b i j
                  = dx_dy_component (m_kernel this) b a j i"
  shows "\<forall>r\<in>{0..int (length (m_rkhs_basis_inds this))}.
         \<forall>c\<in>{0..int (length (m_rkhs_basis_inds this))}.
           elem (fst (build_system this)) r c = elem (fst (build_system this)) c r"
proof (intro ballI)
  let ?A = "fst (build_system this)"
  let ?m = "get_num_rkhs_basis this"
  fix r c
  assume "r \<in> {0..int (length (m_rkhs_basis_inds this))}"
    and "c \<in> {0..int (length (m_rkhs_basis_inds this))}"
  then have r: "r \<in> {0..?m}" and c: "c \<in> {0..?m}"
    by (simp_all add: get_num_rkhs_basis_def)
  show "elem ?A r c = elem ?A c r"
  proof (cases "r = 0 \<or> c = 0")
    case True
    then show ?thesis
      using build_system_first_row [OF c] build_system_first_row [OF r] by auto
  next
    case False
    then have r': "0 \<le> r - 1" "r - 1 < ?m" and c': "0 \<le> c - 1" "c - 1 < ?m"
      using r c by simp_all
    have "spec_G_hat this (r - 1) (c - 1) = spec_G_hat this (c - 1) (r - 1)"
      by (rule spec_G_hat_symmetric [OF v sym r' c'])
    moreover have "(\<Sum>p = 0..<get_num_lhs this * get_num_dimensions this.
            spec_G this p (r - 1) * spec_G this p (c - 1))
        = (\<Sum>p = 0..<get_num_lhs this * get_num_dimensions this.
            spec_G this p (c - 1) * spec_G this p (r - 1))"
      by (simp add: mult.commute)
    ultimately show ?thesis
      using build_system_block [OF v r' c'] build_system_block [OF v c' r'] by simp
  qed
qed

theorem build_system_symmetry_witness:
  "elem (fst (build_system example_nystrom)) 0 2
     = elem (fst (build_system example_nystrom)) 2 0 \<and>
   elem (fst (build_system example_nystrom)) 1 2
     = elem (fst (build_system example_nystrom)) 2 1 \<and>
   elem (fst (build_system example_nystrom)) 1 2 = 9"
proof -
  have v: "valid_basis example_nystrom"
    by (simp add: valid_basis_def example_nystrom_def)
  have s: "\<forall>a\<in>{0..<get_num_lhs example_nystrom}. \<forall>b\<in>{0..<get_num_lhs example_nystrom}.
      \<forall>i\<in>{0..<get_num_dimensions example_nystrom}.
      \<forall>j\<in>{0..<get_num_dimensions example_nystrom}.
        dx_dy_component (m_kernel example_nystrom) a b i j
          = dx_dy_component (m_kernel example_nystrom) b a j i"
    by (simp add: example_nystrom_def example_kernel_def add.commute)
  have m: "int (length (m_rkhs_basis_inds example_nystrom)) = 2"
    by (simp add: example_nystrom_def)
  note T = build_system_symmetry [OF v s, unfolded m]
  let ?A = "fst (build_system example_nystrom)"
  from T have "elem ?A 0 2 = elem ?A 2 0" by simp
  moreover from T have "elem ?A 1 2 = elem ?A 2 1" by simp
  moreover have "elem ?A 1 2 = 9" by code_simp
  ultimately show ?thesis by simp
qed

subsection \<open>The Hessian and its diagonal\<close>

lemma for_loop_pair:
  "for_loop n (\<lambda>i (x, y). (F i x, G i y)) (x0, y0) = (for_loop n F x0, for_loop n G y0)"
proof -
  have "fold (\<lambda>i (x, y). (F i x, G i y)) xs (x0, y0) = (fold F xs x0, fold G xs y0)" for xs
    by (induction xs arbitrary: x0 y0) simp_all
  then show ?thesis by (simp add: for_loop_def)
qed

lemma for_loop_pair_fun:
  "for_loop n (\<lambda>i (x, y). (F i x, G i y)) = (\<lambda>(x, y). (for_loop n F x, for_loop n G y))"
  by (rule ext) (simp add: case_prod_beta for_loop_pair [symmetric])

lemma mat_add_loop:
  "for_loop n (\<lambda>a X. mat_add X (Map_MatrixXd (M a) r c)) X0 =
     X0\<lparr>matrix := (\<lambda>rc. matrix X0 rc + (\<Sum>a = 0..<n. matrix (M a) rc))\<rparr>"
proof -
  have "fold (\<lambda>a X. mat_add X (Map_MatrixXd (M a) r c)) xs X0 =
     X0\<lparr>matrix := (\<lambda>rc. matrix X0 rc + sum_list (map (\<lambda>a. matrix (M a) rc) xs))\<rparr>" for xs
    by (induction xs arbitrary: X0) (simp_all add: mat_add_def Map_MatrixXd_def add.assoc)
  then show ?thesis by (simp add: for_loop_def sum_list_upto_int)
qed

lemma mat_sub_loop:
  "for_loop n (\<lambda>a X. mat_sub X (Map_MatrixXd (M a) r c)) X0 =
     X0\<lparr>matrix := (\<lambda>rc. matrix X0 rc - (\<Sum>a = 0..<n. matrix (M a) rc))\<rparr>"
proof -
  have "fold (\<lambda>a X. mat_sub X (Map_MatrixXd (M a) r c)) xs X0 =
     X0\<lparr>matrix := (\<lambda>rc. matrix X0 rc - sum_list (map (\<lambda>a. matrix (M a) rc) xs))\<rparr>" for xs
    by (induction xs arbitrary: X0) (simp_all add: mat_sub_def Map_MatrixXd_def algebra_simps)
  then show ?thesis by (simp add: for_loop_def sum_list_upto_int)
qed

lemma vec_add_loop:
  fixes x0 :: "float64_t SGVector"
  assumes "length x0 = n"
  shows "for_loop N (\<lambda>a. for_loop (int n) (\<lambda>i x. x[nat i := x ! nat i + f a i])) x0 =
     map (\<lambda>k. x0 ! k + (\<Sum>a = 0..<N. f a (int k))) [0..<n]"
proof -
  have "fold (\<lambda>a. for_loop (int n) (\<lambda>i x. x[nat i := x ! nat i + f a i])) xs x0 =
     map (\<lambda>k. x0 ! k + sum_list (map (\<lambda>a. f a (int k)) xs)) [0..<n]" for xs
    using assms
  proof (induction xs arbitrary: x0)
    case Nil
    then have "map ((!) x0) [0..<n] = x0"
      using map_nth [of x0] by simp
    then show ?case by simp
  next
    case (Cons a xs)
    let ?x1 = "map (\<lambda>k. x0 ! k + f a (int k)) [0..<n]"
    have "for_loop (int n) (\<lambda>i x. x[nat i := x ! nat i + f a i]) x0 = ?x1 @ drop n x0"
      using Cons.prems slot_loop [of n x0 "\<lambda>i v. v + f a i"] by simp
    then have inner: "for_loop (int n) (\<lambda>i x. x[nat i := x ! nat i + f a i]) x0 = ?x1"
      using Cons.prems by simp
    have "fold (\<lambda>a. for_loop (int n) (\<lambda>i x. x[nat i := x ! nat i + f a i])) xs ?x1 =
       map (\<lambda>k. ?x1 ! k + sum_list (map (\<lambda>a. f a (int k)) xs)) [0..<n]"
      by (rule Cons.IH) simp
    also have "\<dots> = map (\<lambda>k. x0 ! k + sum_list (map (\<lambda>a. f a (int k)) (a # xs))) [0..<n]"
      by (simp add: add.assoc)
    finally show ?case by (simp add: inner)
  qed
  then show ?thesis by (simp add: for_loop_def sum_list_upto_int)
qed

lemma vec_sub_loop:
  fixes x0 :: "float64_t SGVector"
  assumes "length x0 = n"
  shows "for_loop N (\<lambda>a. for_loop (int n) (\<lambda>i x. x[nat i := x ! nat i - g a i])) x0 =
     map (\<lambda>k. x0 ! k - (\<Sum>a = 0..<N. g a (int k))) [0..<n]"
  using vec_add_loop [OF assms, of N "\<lambda>a i. - g a i"]
  by (simp add: sum_negf)

lemma hessian_eq:
  "hessian this t =
     Inr \<lparr>num_rows = get_num_dimensions this, num_cols = get_num_dimensions this,
          matrix = (\<lambda>rc.
            (\<Sum>a = 0..<get_num_lhs this.
                matrix (dx_i_dx_j_dx_k_dx_k_row_sum (m_kernel this) a t) rc)
              * (m_alpha_beta this ! 0 / of_int (get_num_lhs this))
            - (\<Sum>a = 0..<get_num_lhs this.
                matrix (dx_i_dx_j_dx_k_dot_vec (m_kernel this) a t
                  (segment (beta_full_fake this) (a * get_num_dimensions this)
                     (get_num_dimensions this))) rc))\<rparr>"
  apply (unfold hessian_def Let_def)
  apply (simp only: for_loop_pair mat_add_loop mat_sub_loop prod.case)
  apply (simp add: mat_add_def mat_scale_def SGMatrix_alloc_def)
  done

lemma hessian_diag_eq:
  assumes "0 \<le> get_num_dimensions this"
  shows "hessian_diag this t =
     Inr (map (\<lambda>k.
            (\<Sum>a = 0..<get_num_lhs this.
                dx_i_dx_j_dx_k_dx_k_row_sum_component (m_kernel this) a t (int k) (int k))
              * (m_alpha_beta this ! 0 / of_int (get_num_lhs this))
            - (\<Sum>a = 0..<get_num_lhs this.
                dx_i_dx_j_dx_k_dot_vec_component (m_kernel this) a t
                  (segment (beta_full_fake this) (a * get_num_dimensions this)
                     (get_num_dimensions this)) (int k) (int k)))
          [0..<nat (get_num_dimensions this)])"
proof -
  obtain n where n: "get_num_dimensions this = int n"
    using assms nonneg_int_cases by blast
  have len: "length (SGVector_alloc (int n)) = n"
    by (simp add: SGVector_alloc_def)
  show ?thesis
    apply (unfold hessian_diag_def Let_def n)
    apply (simp only: for_loop_pair_fun)
    apply (simp only: for_loop_pair vec_add_loop [OF len] vec_sub_loop [OF len] prod.case)
    apply (simp add: vec_add_def vec_scale_def SGVector_alloc_def)
    apply (rule nth_equalityI)
     apply simp_all
    done
qed

text \<open>
  Claim C7. Fix a query index \<open>t\<close> and a coordinate \<open>i\<close> in \<open>[0, D)\<close>, and let the
  component oracles agree with the matrix oracles at \<open>(i, i)\<close>: for every sample \<open>a\<close> in
  \<open>[0, N)\<close>, the \<open>(i, i)\<close> entry of \<open>dx_i_dx_j_dx_k_dx_k_row_sum(a, t)\<close> is
  \<open>dx_i_dx_j_dx_k_dx_k_row_sum_component(a, t, i, i)\<close>, and the \<open>(i, i)\<close> entry of
  \<open>dx_i_dx_j_dx_k_dot_vec(a, t, v)\<close> is \<open>dx_i_dx_j_dx_k_dot_vec_component(a, t, v, i, i)\<close>.
  Then both evaluators return, and \<open>hessian_diag(t)[i]\<close> equals \<open>hessian(t)[i, i]\<close>.
\<close>

theorem hessian_diag_is_diagonal_of_hessian:
  assumes "\<forall>a\<in>{0..<get_num_lhs this}.
             matrix (dx_i_dx_j_dx_k_dx_k_row_sum (m_kernel this) a t) (i, i)
               = dx_i_dx_j_dx_k_dx_k_row_sum_component (m_kernel this) a t i i"
    and "\<forall>a\<in>{0..<get_num_lhs this}. \<forall>v.
             matrix (dx_i_dx_j_dx_k_dot_vec (m_kernel this) a t v) (i, i)
               = dx_i_dx_j_dx_k_dot_vec_component (m_kernel this) a t v i i"
    and "0 \<le> i" and "i < get_num_dimensions this"
  shows "\<exists>H d. hessian this t = Inr H \<and> hessian_diag this t = Inr d \<and>
               d ! nat i = elem H i i"
proof -
  have D: "0 \<le> get_num_dimensions this" and i: "nat i < nat (get_num_dimensions this)"
    using assms(3,4) by simp_all
  have "(\<Sum>a = 0..<get_num_lhs this.
           matrix (dx_i_dx_j_dx_k_dx_k_row_sum (m_kernel this) a t) (i, i))
      = (\<Sum>a = 0..<get_num_lhs this.
           dx_i_dx_j_dx_k_dx_k_row_sum_component (m_kernel this) a t i i)"
    using assms(1) by (intro sum.cong) simp_all
  moreover have "(\<Sum>a = 0..<get_num_lhs this.
           matrix (dx_i_dx_j_dx_k_dot_vec (m_kernel this) a t
             (segment (beta_full_fake this) (a * get_num_dimensions this)
                (get_num_dimensions this))) (i, i))
      = (\<Sum>a = 0..<get_num_lhs this.
           dx_i_dx_j_dx_k_dot_vec_component (m_kernel this) a t
             (segment (beta_full_fake this) (a * get_num_dimensions this)
                (get_num_dimensions this)) i i)"
    using assms(2) by (intro sum.cong) simp_all
  ultimately show ?thesis
    using i assms(3) by (simp add: hessian_eq hessian_diag_eq [OF D] elem_def)
qed

theorem hessian_diag_is_diagonal_of_hessian_witness:
  "\<exists>H d. hessian example_nystrom 1 = Inr H \<and> hessian_diag example_nystrom 1 = Inr d \<and>
         d ! nat 1 = elem H 1 1 \<and> d = [7 / 2, - (23 / 2)]"
proof -
  have r: "\<forall>a\<in>{0..<get_num_lhs example_nystrom}.
             matrix (dx_i_dx_j_dx_k_dx_k_row_sum (m_kernel example_nystrom) a 1) (1, 1)
               = dx_i_dx_j_dx_k_dx_k_row_sum_component (m_kernel example_nystrom) a 1 1 1"
    by (simp add: example_nystrom_def example_kernel_def)
  have d: "\<forall>a\<in>{0..<get_num_lhs example_nystrom}. \<forall>v.
             matrix (dx_i_dx_j_dx_k_dot_vec (m_kernel example_nystrom) a 1 v) (1, 1)
               = dx_i_dx_j_dx_k_dot_vec_component (m_kernel example_nystrom) a 1 v 1 1"
    by (simp add: example_nystrom_def example_kernel_def)
  have i: "(1::int) < get_num_dimensions example_nystrom"
    by (simp add: example_nystrom_def)
  have v: "hessian_diag example_nystrom 1 = Inr [7 / 2, - (23 / 2)]"
    by code_simp
  show ?thesis
    using hessian_diag_is_diagonal_of_hessian [OF r d _ i] v by auto
qed

subsection \<open>Evaluation at an arbitrary query index\<close>

lemma vec_acc_loop:
  fixes x0 :: "float64_t SGVector"
  assumes body: "\<And>idx x. 0 \<le> idx \<Longrightarrow> idx < m \<Longrightarrow> length x = n \<Longrightarrow>
                   body idx x = map (\<lambda>i. x ! i + h idx i) [0..<n]"
    and len: "length x0 = n" and m: "0 \<le> m"
  shows "for_loop m body x0 = map (\<lambda>i. x0 ! i + (\<Sum>idx = 0..<m. h idx i)) [0..<n]"
proof (rule for_loop_invariant [where
      P = "\<lambda>j x. x = map (\<lambda>i. x0 ! i + (\<Sum>idx = 0..<j. h idx i)) [0..<n]"])
  show "0 \<le> m" by fact
  show "x0 = map (\<lambda>i. x0 ! i + (\<Sum>idx = 0..<0. h idx i)) [0..<n]"
    using len map_nth [of x0] by simp
next
  fix j x
  assume j: "0 \<le> j" "j < m"
    and x: "x = map (\<lambda>i. x0 ! i + (\<Sum>idx = 0..<j. h idx i)) [0..<n]"
  have "length x = n" by (simp add: x)
  then have "body j x = map (\<lambda>i. x ! i + h j i) [0..<n]"
    using j by (intro body)
  also have "\<dots> = map (\<lambda>i. x0 ! i + (\<Sum>idx = 0..<j + 1. h idx i)) [0..<n]"
  proof (rule map_cong [OF refl])
    fix i assume "i \<in> set [0..<n]"
    then have "x ! i = x0 ! i + (\<Sum>idx = 0..<j. h idx i)"
      by (simp add: x)
    moreover have "{0..<j + 1} = insert j {0..<j}"
      using j(1) by auto
    ultimately show "x ! i + h j i = x0 ! i + (\<Sum>idx = 0..<j + 1. h idx i)"
      by simp
  qed
  finally show "body j x = map (\<lambda>i. x0 ! i + (\<Sum>idx = 0..<j + 1. h idx i)) [0..<n]" .
qed

lemma map2_nth:
  assumes "length x = n" and "length y = n"
  shows "map2 f x y = map (\<lambda>i. f (x ! i) (y ! i)) [0..<n]"
  using assms by (intro nth_equalityI) simp_all

lemma valid_basis_position:
  assumes v: "valid_basis this" and idx: "0 \<le> idx" "idx < get_num_rkhs_basis this"
  shows "idx_to_ai this (m_rkhs_basis_inds this ! nat idx) =
           (m_rkhs_basis_inds this ! nat idx div get_num_dimensions this,
            m_rkhs_basis_inds this ! nat idx mod get_num_dimensions this)"
    and "m_rkhs_basis_inds this ! nat idx div get_num_dimensions this \<in> {0..<get_num_lhs this}"
    and "m_rkhs_basis_inds this ! nat idx mod get_num_dimensions this
           \<in> {0..<get_num_dimensions this}"
proof -
  have D: "0 < get_num_dimensions this" using v by (simp add: valid_basis_def)
  note J = valid_basis_nth [OF v idx]
  show "idx_to_ai this (m_rkhs_basis_inds this ! nat idx) =
           (m_rkhs_basis_inds this ! nat idx div get_num_dimensions this,
            m_rkhs_basis_inds this ! nat idx mod get_num_dimensions this)"
    using J(1) D by (rule idx_to_ai_div_mod)
  show "m_rkhs_basis_inds this ! nat idx div get_num_dimensions this \<in> {0..<get_num_lhs this}"
    and "m_rkhs_basis_inds this ! nat idx mod get_num_dimensions this
           \<in> {0..<get_num_dimensions this}"
    using codec_in_range [OF J D] by simp_all
qed

lemma grad_eq:
  assumes v: "valid_basis this"
    and lens: "\<forall>a\<in>{0..<get_num_lhs this}. \<forall>i\<in>{0..<get_num_dimensions this}.
        length (dx_i_dx_i_dx_j_component (m_kernel this) a t i) = nat (get_num_dimensions this) \<and>
        length (dx_i_dx_j_component (m_kernel this) a t i) = nat (get_num_dimensions this)"
  shows "grad this t =
     Inr (map (\<lambda>i. m_alpha_beta this ! 0 / of_int (get_num_lhs this) *
                   (- (\<Sum>k = 0..<length (m_rkhs_basis_inds this).
                        dx_i_dx_i_dx_j_component (m_kernel this)
                          (m_rkhs_basis_inds this ! k div get_num_dimensions this) t
                          (m_rkhs_basis_inds this ! k mod get_num_dimensions this) ! i))
                 + (\<Sum>k = 0..<length (m_rkhs_basis_inds this).
                      dx_i_dx_j_component (m_kernel this)
                        (m_rkhs_basis_inds this ! k div get_num_dimensions this) t
                        (m_rkhs_basis_inds this ! k mod get_num_dimensions this) ! i
                      * m_alpha_beta this ! (1 + k)))
              [0..<nat (get_num_dimensions this)])"
proof -
  let ?J = "m_rkhs_basis_inds this" and ?D = "get_num_dimensions this"
  let ?m = "get_num_rkhs_basis this" and ?n = "nat (get_num_dimensions this)"
  let ?ai = "\<lambda>idx. idx_to_ai this (?J ! nat idx)"
  let ?F = "\<lambda>idx. dx_i_dx_i_dx_j_component (m_kernel this) (fst (?ai idx)) t (snd (?ai idx))"
  let ?G = "\<lambda>idx. dx_i_dx_j_component (m_kernel this) (fst (?ai idx)) t (snd (?ai idx))"
  let ?F' = "\<lambda>k. dx_i_dx_i_dx_j_component (m_kernel this) (?J ! k div ?D) t (?J ! k mod ?D)"
  let ?G' = "\<lambda>k. dx_i_dx_j_component (m_kernel this) (?J ! k div ?D) t (?J ! k mod ?D)"
  have FG: "?F idx = ?F' (nat idx)" "?G idx = ?G' (nat idx)"
    "length (?F idx) = ?n" "length (?G idx) = ?n" if "0 \<le> idx" "idx < ?m" for idx
    using valid_basis_position [OF v that] lens by simp_all
  have L1: "for_loop ?m (\<lambda>idx x. vec_sub x (Map_VectorXd (?F idx) ?D)) (SGVector_alloc ?D)
      = map (\<lambda>i. SGVector_alloc ?D ! i + (\<Sum>idx = 0..<?m. - (?F idx ! i))) [0..<?n]"
  proof (rule vec_acc_loop)
    fix idx and x :: "float64_t SGVector"
    assume "0 \<le> idx" "idx < ?m" "length x = ?n"
    then show "vec_sub x (Map_VectorXd (?F idx) ?D) = map (\<lambda>i. x ! i + - (?F idx ! i)) [0..<?n]"
      using FG(3) [of idx] by (simp add: vec_sub_def Map_VectorXd_def map2_nth [of _ ?n])
  qed (simp_all add: SGVector_alloc_def m_nonneg)
  have L2: "for_loop ?m (\<lambda>idx y. vec_add y (vec_scale (Map_VectorXd (?G idx) ?D)
                 (m_alpha_beta this ! nat (1 + idx)))) (SGVector_alloc ?D)
      = map (\<lambda>i. SGVector_alloc ?D ! i
               + (\<Sum>idx = 0..<?m. ?G idx ! i * m_alpha_beta this ! nat (1 + idx))) [0..<?n]"
  proof (rule vec_acc_loop)
    fix idx and y :: "float64_t SGVector"
    assume "0 \<le> idx" "idx < ?m" "length y = ?n"
    then show "vec_add y (vec_scale (Map_VectorXd (?G idx) ?D) (m_alpha_beta this ! nat (1 + idx)))
        = map (\<lambda>i. y ! i + ?G idx ! i * m_alpha_beta this ! nat (1 + idx)) [0..<?n]"
      using FG(4) [of idx]
      by (simp add: vec_add_def vec_scale_def Map_VectorXd_def map2_nth [of _ ?n])
  qed (simp_all add: SGVector_alloc_def m_nonneg)
  have S1: "(\<Sum>idx = 0..<?m. - (?F idx ! i)) = - (\<Sum>k = 0..<length ?J. ?F' k ! i)" for i
  proof -
    have "(\<Sum>idx = 0..<?m. - (?F idx ! i)) = (\<Sum>idx = 0..<?m. - (?F' (nat idx) ! i))"
      by (rule sum.cong) (simp_all add: FG(1))
    then show ?thesis
      by (simp add: sum_basis_positions sum_negf)
  qed
  have S2: "(\<Sum>idx = 0..<?m. ?G idx ! i * m_alpha_beta this ! nat (1 + idx))
      = (\<Sum>k = 0..<length ?J. ?G' k ! i * m_alpha_beta this ! (1 + k))" for i
  proof -
    have "(\<Sum>idx = 0..<?m. ?G idx ! i * m_alpha_beta this ! nat (1 + idx))
        = (\<Sum>idx = 0..<?m. ?G' (nat idx) ! i * m_alpha_beta this ! (1 + nat idx))"
      by (rule sum.cong) (simp_all add: FG(2) nat_add_distrib)
    then show ?thesis
      by (simp add: sum_basis_positions)
  qed
  show ?thesis
    unfolding grad_def Let_def for_loop_pair L1 L2 S1 S2
    by (simp add: vec_add_def vec_scale_def SGVector_alloc_def map2_nth [of _ ?n])
qed

lemma beta_full_fake_lifted:
  assumes v: "valid_basis this" and d: "distinct (m_rkhs_basis_inds this)"
  shows "beta_full_fake this = spec_lifted_beta this"
proof -
  let ?J = "m_rkhs_basis_inds this" and ?D = "get_num_dimensions this"
  let ?L = "nat (get_num_lhs this * get_num_dimensions this)"
  let ?m = "get_num_rkhs_basis this"
  let ?c = "\<lambda>p k. if ?J ! k = int p then m_alpha_beta this ! (1 + k) else 0"
  let ?P = "\<lambda>j \<beta>. \<beta> = map (\<lambda>p. \<Sum>k = 0..<nat j. ?c p k) [0..<?L]"
  let ?body = "\<lambda>idx \<beta>. \<beta>[nat (fst (idx_to_ai this (?J ! nat idx)) * ?D
                                + snd (idx_to_ai this (?J ! nat idx)))
                           := m_alpha_beta this ! nat (1 + idx)]"
  have "?P ?m (for_loop ?m ?body (replicate ?L 0))"
  proof (rule for_loop_invariant [where P = ?P and n = ?m and body = ?body])
    show "0 \<le> ?m" by (rule m_nonneg)
    show "?P 0 (replicate ?L 0)"
      by (intro nth_equalityI) simp_all
  next
    fix j :: int and \<beta> :: "float64_t SGVector"
    assume j: "0 \<le> j" "j < ?m" and P: "?P j \<beta>"
    have jl: "nat j < length ?J"
      using j by (simp add: get_num_rkhs_basis_def)
    have q: "0 \<le> ?J ! nat j" "?J ! nat j < get_num_lhs this * ?D"
      using valid_basis_nth [OF v j] .
    have flat: "fst (idx_to_ai this (?J ! nat j)) * ?D + snd (idx_to_ai this (?J ! nat j))
        = ?J ! nat j"
      using valid_basis_codec_nth [OF v jl] by simp
    have earlier: "(\<Sum>k = 0..<nat j. ?c p k) = 0" if "?J ! nat j = int p" for p
    proof (rule sum.neutral, rule ballI)
      fix k assume "k \<in> {0..<nat j}"
      then have "k < length ?J" "k \<noteq> nat j" using jl by simp_all
      then have "?J ! k \<noteq> ?J ! nat j"
        using d jl by (simp add: nth_eq_iff_index_eq)
      then show "?c p k = 0" using that by simp
    qed
    have nj: "nat (j + 1) = Suc (nat j)" using j(1) by simp
    have len: "length \<beta> = ?L" using P by simp
    have "\<beta>[nat (?J ! nat j) := m_alpha_beta this ! nat (1 + j)]
        = map (\<lambda>p. \<Sum>k = 0..<nat (j + 1). ?c p k) [0..<?L]"
    proof (rule nth_equalityI)
      show "length (\<beta>[nat (?J ! nat j) := m_alpha_beta this ! nat (1 + j)])
          = length (map (\<lambda>p. \<Sum>k = 0..<nat (j + 1). ?c p k) [0..<?L])"
        using len by simp
    next
      fix p assume "p < length (\<beta>[nat (?J ! nat j) := m_alpha_beta this ! nat (1 + j)])"
      then have p: "p < ?L" using len by simp
      have old: "\<beta> ! p = (\<Sum>k = 0..<nat j. ?c p k)"
        using p by (subst P) simp
      show "\<beta>[nat (?J ! nat j) := m_alpha_beta this ! nat (1 + j)] ! p
          = map (\<lambda>p. \<Sum>k = 0..<nat (j + 1). ?c p k) [0..<?L] ! p"
      proof (cases "?J ! nat j = int p")
        case True
        then have "nat (?J ! nat j) = p" by simp
        then show ?thesis
          using p len True earlier [OF True] j(1) by (simp add: nj nat_add_distrib)
      next
        case False
        then have "nat (?J ! nat j) \<noteq> p" using q(1) by auto
        then show ?thesis
          using p False old by (simp add: nj)
      qed
    qed
    then show "?P (j + 1) (?body j \<beta>)"
      by (simp only: flat)
  qed
  then show ?thesis
    unfolding beta_full_fake_def spec_lifted_beta_def Let_def
    by (simp add: get_num_rkhs_basis_def)
qed

lemma length_spec_lifted_beta:
  "length (spec_lifted_beta this) = nat (get_num_lhs this * get_num_dimensions this)"
  by (simp add: spec_lifted_beta_def)

lemma segment_nth_map:
  fixes v :: "float64_t SGVector"
  assumes a: "0 \<le> a" "a < N" and D: "0 < D" and len: "length v = nat (N * D)"
  shows "segment v (a * D) D = map (\<lambda>j. v ! nat (a * D + int j)) [0..<nat D]"
proof (rule nth_equalityI)
  have "(a + 1) * D \<le> N * D"
    using a D by (intro mult_right_mono) simp_all
  then have le: "a * D + D \<le> N * D" by (simp add: algebra_simps)
  have aD: "0 \<le> a * D" using a D by simp
  have "nat (a * D) + nat D \<le> nat (N * D)"
    using le aD D by linarith
  then show L: "length (segment v (a * D) D) = length (map (\<lambda>j. v ! nat (a * D + int j)) [0..<nat D])"
    using len by (simp add: segment_def)
  fix j assume "j < length (segment v (a * D) D)"
  then have j: "j < nat D" using L by simp
  have "nat (a * D + int j) = nat (a * D) + j" using aD by (simp add: nat_add_distrib)
  then show "segment v (a * D) D ! j = map (\<lambda>j. v ! nat (a * D + int j)) [0..<nat D] ! j"
    using j \<open>nat (a * D) + nat D \<le> nat (N * D)\<close> len by (simp add: segment_def)
qed

lemma beta_segment:
  assumes v: "valid_basis this" and d: "distinct (m_rkhs_basis_inds this)"
    and a: "a \<in> {0..<get_num_lhs this}"
  shows "segment (beta_full_fake this) (a * get_num_dimensions this) (get_num_dimensions this)
       = map (\<lambda>j. spec_lifted_beta this ! nat (a * get_num_dimensions this + int j))
             [0..<nat (get_num_dimensions this)]"
proof -
  have D: "0 < get_num_dimensions this" using v by (simp add: valid_basis_def)
  show ?thesis
    unfolding beta_full_fake_lifted [OF v d]
    using a by (intro segment_nth_map [OF _ _ D length_spec_lifted_beta]) simp_all
qed


text \<open>
  Claim C8 as stated fails: on the concrete estimator, whose sample count is 2,
  \<open>log_pdf(2)\<close> returns a number; with an empty basis it returns \<open>0\<close> without
  consulting the kernel at all.
\<close>

theorem log_pdf_out_of_range_returns:
  "log_pdf example_nystrom (get_num_lhs example_nystrom) = Inr (- (51 / 2)) \<and>
   log_pdf (example_nystrom\<lparr>m_alpha_beta := [1], m_rkhs_basis_inds := []\<rparr>) 2 = Inr 0"
  by code_simp

text \<open>
  Claim C8, as amended. No evaluator inspects the query index. For a fitted estimator
  whose basis indices are pairwise distinct, and a kernel whose vector oracles
  \<open>dx_i_dx_i_dx_j_component\<close> and \<open>dx_i_dx_j_component\<close> return \<open>D\<close> entries at the
  query, every evaluator returns a value for every query index \<open>t\<close>, inside \<open>[0, N)\<close> or
  not, and the value is the evaluation formula read at \<open>t\<close>. With
  \<open>a_k = J[k] div D\<close>, \<open>i_k = J[k] mod D\<close> and \<open>theta = m_alpha_beta\<close>:
  \<open>log_pdf(t)\<close> is \<open>theta[0]\<close> times the sum over \<open>k < m\<close> of \<open>dx_dx_component(a_k, t, i_k)\<close>,
  divided by \<open>N\<close>, minus the sum of \<open>dx_component(a_k, t, i_k) * theta[1+k]\<close>;
  \<open>grad(t)[i]\<close> is \<open>theta[0] / N\<close> times minus the sum of
  \<open>dx_i_dx_i_dx_j_component(a_k, t, i_k)[i]\<close>, plus the sum of
  \<open>dx_i_dx_j_component(a_k, t, i_k)[i] * theta[1+k]\<close>;
  \<open>hessian(t)\<close> is the \<open>D\<close> by \<open>D\<close> matrix whose entries are the sum over the samples
  \<open>a < N\<close> of \<open>dx_i_dx_j_dx_k_dx_k_row_sum(a, t)\<close> times \<open>theta[0] / N\<close>, minus the sum of
  \<open>dx_i_dx_j_dx_k_dot_vec(a, t, v_a)\<close>, where \<open>v_a\<close> holds the entries \<open>a*D, \<dots>, a*D + D - 1\<close>
  of the lifted coefficient vector; and \<open>hessian_diag(t)[i]\<close> is the same expression
  with the component oracles at \<open>(i, i)\<close>.
\<close>

theorem evaluators_ignore_query_range:
  assumes f: "fitted this" and d: "distinct (m_rkhs_basis_inds this)"
    and lens: "\<forall>a\<in>{0..<get_num_lhs this}. \<forall>i\<in>{0..<get_num_dimensions this}.
        length (dx_i_dx_i_dx_j_component (m_kernel this) a t i) = nat (get_num_dimensions this) \<and>
        length (dx_i_dx_j_component (m_kernel this) a t i) = nat (get_num_dimensions this)"
  shows "log_pdf this t =
     Inr (m_alpha_beta this ! 0 *
            (\<Sum>k = 0..<length (m_rkhs_basis_inds this).
               dx_dx_component (m_kernel this)
                 (m_rkhs_basis_inds this ! k div get_num_dimensions this) t
                 (m_rkhs_basis_inds this ! k mod get_num_dimensions this))
            / of_int (get_num_lhs this)
          - (\<Sum>k = 0..<length (m_rkhs_basis_inds this).
               dx_component (m_kernel this)
                 (m_rkhs_basis_inds this ! k div get_num_dimensions this) t
                 (m_rkhs_basis_inds this ! k mod get_num_dimensions this)
               * m_alpha_beta this ! (1 + k)))
   \<and> grad this t =
     Inr (map (\<lambda>i. m_alpha_beta this ! 0 / of_int (get_num_lhs this) *
                   (- (\<Sum>k = 0..<length (m_rkhs_basis_inds this).
                        dx_i_dx_i_dx_j_component (m_kernel this)
                          (m_rkhs_basis_inds this ! k div get_num_dimensions this) t
                          (m_rkhs_basis_inds this ! k mod get_num_dimensions this) ! i))
                 + (\<Sum>k = 0..<length (m_rkhs_basis_inds this).
                      dx_i_dx_j_component (m_kernel this)
                        (m_rkhs_basis_inds this ! k div get_num_dimensions this) t
                        (m_rkhs_basis_inds this ! k mod get_num_dimensions this) ! i
                      * m_alpha_beta this ! (1 + k)))
              [0..<nat (get_num_dimensions this)])
   \<and> hessian this t =
     Inr \<lparr>num_rows = get_num_dimensions this, num_cols = get_num_dimensions this,
          matrix = (\<lambda>rc.
            (\<Sum>a = 0..<get_num_lhs this.
                matrix (dx_i_dx_j_dx_k_dx_k_row_sum (m_kernel this) a t) rc)
              * (m_alpha_beta this ! 0 / of_int (get_num_lhs this))
            - (\<Sum>a = 0..<get_num_lhs this.
                matrix (dx_i_dx_j_dx_k_dot_vec (m_kernel this) a t
                  (map (\<lambda>j. spec_lifted_beta this ! nat (a * get_num_dimensions this + int j))
                       [0..<nat (get_num_dimensions this)])) rc))\<rparr>
   \<and> hessian_diag this t =
     Inr (map (\<lambda>i.
            (\<Sum>a = 0..<get_num_lhs this.
                dx_i_dx_j_dx_k_dx_k_row_sum_component (m_kernel this) a t (int i) (int i))
              * (m_alpha_beta this ! 0 / of_int (get_num_lhs this))
            - (\<Sum>a = 0..<get_num_lhs this.
                dx_i_dx_j_dx_k_dot_vec_component (m_kernel this) a t
                  (map (\<lambda>j. spec_lifted_beta this ! nat (a * get_num_dimensions this + int j))
                       [0..<nat (get_num_dimensions this)]) (int i) (int i)))
          [0..<nat (get_num_dimensions this)])"
proof -
  have v: "valid_basis this"
    using f by (simp add: fitted_def)
  have D: "0 \<le> get_num_dimensions this"
    using v by (simp add: valid_basis_def)
  let ?J = "m_rkhs_basis_inds this" and ?D = "get_num_dimensions this"
  let ?seg = "\<lambda>a. segment (beta_full_fake this) (a * ?D) ?D"
  let ?lift = "\<lambda>a. map (\<lambda>j. spec_lifted_beta this ! nat (a * ?D + int j)) [0..<nat ?D]"
  have xi: "(\<Sum>k = 0..<length ?J.
               dx_dx_component (m_kernel this)
                 (fst (idx_to_ai this (?J ! nat (int k)))) t
                 (snd (idx_to_ai this (?J ! nat (int k)))))
          = (\<Sum>k = 0..<length ?J.
               dx_dx_component (m_kernel this) (?J ! k div ?D) t (?J ! k mod ?D))"
    by (rule sum.cong) (simp_all add: valid_basis_codec_nth [OF v])
  have beta: "(\<Sum>k = 0..<length ?J.
               dx_component (m_kernel this)
                 (fst (idx_to_ai this (?J ! nat (int k)))) t
                 (snd (idx_to_ai this (?J ! nat (int k))))
               * m_alpha_beta this ! nat (1 + int k))
          = (\<Sum>k = 0..<length ?J.
               dx_component (m_kernel this) (?J ! k div ?D) t (?J ! k mod ?D)
               * m_alpha_beta this ! (1 + k))"
    by (rule sum.cong) (simp_all add: valid_basis_codec_nth [OF v] nat_add_distrib)
  have H: "(\<Sum>a = 0..<get_num_lhs this.
              matrix (dx_i_dx_j_dx_k_dot_vec (m_kernel this) a t (?seg a)) rc)
         = (\<Sum>a = 0..<get_num_lhs this.
              matrix (dx_i_dx_j_dx_k_dot_vec (m_kernel this) a t (?lift a)) rc)" for rc
    by (rule sum.cong) (simp_all only: beta_segment [OF v d])
  have Hd: "(\<Sum>a = 0..<get_num_lhs this.
              dx_i_dx_j_dx_k_dot_vec_component (m_kernel this) a t (?seg a) i i)
         = (\<Sum>a = 0..<get_num_lhs this.
              dx_i_dx_j_dx_k_dot_vec_component (m_kernel this) a t (?lift a) i i)" for i
    by (rule sum.cong) (simp_all only: beta_segment [OF v d])
  have 1: "log_pdf this t =
     Inr (m_alpha_beta this ! 0 *
            (\<Sum>k = 0..<length ?J. dx_dx_component (m_kernel this) (?J ! k div ?D) t (?J ! k mod ?D))
            / of_int (get_num_lhs this)
          - (\<Sum>k = 0..<length ?J.
               dx_component (m_kernel this) (?J ! k div ?D) t (?J ! k mod ?D)
               * m_alpha_beta this ! (1 + k)))"
    unfolding log_pdf_eq sum_basis_positions xi beta ..
  note 2 = grad_eq [OF v lens]
  have 3: "hessian this t =
     Inr \<lparr>num_rows = ?D, num_cols = ?D,
          matrix = (\<lambda>rc.
            (\<Sum>a = 0..<get_num_lhs this.
                matrix (dx_i_dx_j_dx_k_dx_k_row_sum (m_kernel this) a t) rc)
              * (m_alpha_beta this ! 0 / of_int (get_num_lhs this))
            - (\<Sum>a = 0..<get_num_lhs this.
                matrix (dx_i_dx_j_dx_k_dot_vec (m_kernel this) a t (?lift a)) rc))\<rparr>"
    unfolding hessian_eq H ..
  have 4: "hessian_diag this t =
     Inr (map (\<lambda>i.
            (\<Sum>a = 0..<get_num_lhs this.
                dx_i_dx_j_dx_k_dx_k_row_sum_component (m_kernel this) a t (int i) (int i))
              * (m_alpha_beta this ! 0 / of_int (get_num_lhs this))
            - (\<Sum>a = 0..<get_num_lhs this.
                dx_i_dx_j_dx_k_dot_vec_component (m_kernel this) a t (?lift a) (int i) (int i)))
          [0..<nat ?D])"
    unfolding hessian_diag_eq [OF D] Hd ..
  from 1 2 3 4 show ?thesis by (intro conjI)
qed

theorem evaluators_ignore_query_range_witness:
  "log_pdf example_nystrom 2 = Inr (- (51 / 2)) \<and>
   grad example_nystrom 2 = Inr [2, 23 / 2] \<and>
   elem (projr (hessian example_nystrom 2)) 0 1 = 9 / 2 \<and>
   hessian_diag example_nystrom 2 = Inr [25 / 2, - (5 / 2)]"
proof -
  have f: "fitted example_nystrom"
    by (simp add: fitted_def valid_basis_def example_nystrom_def)
  have d: "distinct (m_rkhs_basis_inds example_nystrom)"
    by (simp add: example_nystrom_def)
  have I: "{0..<2::int} = {0, 1}" by auto
  have U: "[0..<2::nat] = [0, 1]" by (simp add: upt_rec)
  have l: "\<forall>a\<in>{0..<get_num_lhs example_nystrom}.
           \<forall>i\<in>{0..<get_num_dimensions example_nystrom}.
        length (dx_i_dx_i_dx_j_component (m_kernel example_nystrom) a 2 i)
          = nat (get_num_dimensions example_nystrom) \<and>
        length (dx_i_dx_j_component (m_kernel example_nystrom) a 2 i)
          = nat (get_num_dimensions example_nystrom)"
    by (simp add: example_nystrom_def example_kernel_def)
  have e: "m_rkhs_basis_inds example_nystrom = [0, 3]" "get_num_lhs example_nystrom = 2"
    "get_num_dimensions example_nystrom = 2" "m_kernel example_nystrom = example_kernel"
    "m_alpha_beta example_nystrom = [1, 2, 3]"
    by (simp_all add: example_nystrom_def)
  have b: "spec_lifted_beta example_nystrom = [2, 0, 0, 3]"
    by code_simp
  note T = evaluators_ignore_query_range [OF f d l, unfolded e b]
  show ?thesis
    using T by (simp add: I U example_kernel_def elem_def)
qed

subsection \<open>The pseudo-inverse\<close>

lemma maxCoeff_Max:
  assumes "v \<noteq> []"
  shows "maxCoeff v = Max (set v)"
proof (cases v)
  case Nil
  with assms show ?thesis by simp
next
  case (Cons x xs)
  then show ?thesis
    using Max.set_eq_fold [of x xs] by (simp add: maxCoeff_def)
qed

lemma inv_s_loop:
  "for_loop (int n) (\<lambda>i inv_s. if P i then inv_s[nat i := f i] else inv_s[nat i := g i])
     (SGVector_alloc (int n))
   = map (\<lambda>k. if P (int k) then f (int k) else g (int k)) [0..<n]"
proof -
  have "(\<lambda>i inv_s. if P i then inv_s[nat i := f i] else inv_s[nat i := g i])
      = (\<lambda>i (inv_s::real list). inv_s[nat i := (\<lambda>i _. if P i then f i else g i) i (inv_s ! nat i)])"
    by (intro ext) simp
  then show ?thesis
    using slot_loop [of n "SGVector_alloc (int n)" "\<lambda>i _. if P i then f i else g i"]
    by (simp add: SGVector_alloc_def)
qed

lemma mat_mul_asDiagonal:
  assumes "num_cols V = int (length v)"
  shows "matrix (mat_mul (mat_mul V (asDiagonal v)) (transpose_m V)) (r, c) =
     (\<Sum>k = 0..<int (length v). matrix V (r, k) * v ! nat k * matrix V (c, k))"
proof -
  have "matrix (mat_mul V (asDiagonal v)) (r, k) = matrix V (r, k) * v ! nat k"
    if "k \<in> {0..<int (length v)}" for k
  proof -
    have "(\<Sum>l = 0..<int (length v). matrix V (r, l) * (if l = k then v ! nat l else 0))
        = (\<Sum>l = 0..<int (length v). if l = k then matrix V (r, l) * v ! nat l else 0)"
      by (intro sum.cong) simp_all
    also have "\<dots> = matrix V (r, k) * v ! nat k"
      using that by simp
    finally show ?thesis
      using assms by (simp add: mat_mul_def asDiagonal_def sum_list_upto_int)
  qed
  then show ?thesis
    by (simp add: mat_mul_def [of "mat_mul V (asDiagonal v)"] transpose_m_def sum_list_upto_int
        mat_mul_def [of V, THEN arg_cong [where f = num_cols]] asDiagonal_def [THEN arg_cong [where f = num_cols]])
qed

lemma pinv_self_adjoint_eq:
  assumes "num_cols A = num_rows A"
    and "int (length (eigenvalues (new_solver A))) = num_rows A"
    and "num_cols (eigenvectors (new_solver A)) = num_rows A"
  shows "pinv_self_adjoint eps new_solver A =
     Inr \<lparr>num_rows = num_rows A, num_cols = num_rows A,
          matrix = (\<lambda>(r, c). \<Sum>k = 0..<num_rows A.
             matrix (eigenvectors (new_solver A)) (r, k) *
             (if eps * of_int (num_rows A) * maxCoeff (eigenvalues (new_solver A))
                   < eigenvalues (new_solver A) ! nat k
              then 1 / eigenvalues (new_solver A) ! nat k else 0) *
             matrix (eigenvectors (new_solver A)) (c, k))\<rparr>"
proof -
  let ?s = "eigenvalues (new_solver A)" and ?V = "eigenvectors (new_solver A)"
  let ?n = "length ?s"
  let ?tol = "eps * of_int (num_rows A) * maxCoeff ?s"
  let ?inv = "map (\<lambda>k. if ?tol < ?s ! nat (int k) then 1 / ?s ! nat (int k) else 0) [0..<?n]"
  have MA: "Map_MatrixXd A (num_rows A) (num_rows A) = A"
    using assms(1) by (cases A) (simp add: Map_MatrixXd_def)
  have n: "num_rows A = int ?n"
    using assms(2) by simp
  have loop: "for_loop (num_rows A)
       (\<lambda>i inv_s. if ?tol < ?s ! nat i then inv_s[nat i := 1 / ?s ! nat i] else inv_s[nat i := 0])
       (SGVector_alloc (num_rows A)) = ?inv"
    unfolding n by (rule inv_s_loop)
  have entry: "matrix (mat_mul (mat_mul ?V (asDiagonal ?inv)) (transpose_m ?V)) (r, c) =
      (\<Sum>k = 0..<num_rows A. matrix ?V (r, k) *
          (if ?tol < ?s ! nat k then 1 / ?s ! nat k else 0) * matrix ?V (c, k))" for r c
  proof -
    have "matrix (mat_mul (mat_mul ?V (asDiagonal ?inv)) (transpose_m ?V)) (r, c) =
      (\<Sum>k = 0..<int (length ?inv). matrix ?V (r, k) * ?inv ! nat k * matrix ?V (c, k))"
      by (rule mat_mul_asDiagonal) (simp add: assms(3) n)
    also have "\<dots> = (\<Sum>k = 0..<num_rows A. matrix ?V (r, k) *
          (if ?tol < ?s ! nat k then 1 / ?s ! nat k else 0) * matrix ?V (c, k))"
    proof (rule sum.cong)
      show "{0..<int (length ?inv)} = {0..<num_rows A}"
        by (simp add: n)
    next
      fix k assume "k \<in> {0..<num_rows A}"
      then have "nat k < ?n" using n by auto
      then have "?inv ! nat k = (if ?tol < ?s ! nat k then 1 / ?s ! nat k else 0)"
        by simp
      then show "matrix ?V (r, k) * ?inv ! nat k * matrix ?V (c, k)
          = matrix ?V (r, k) * (if ?tol < ?s ! nat k then 1 / ?s ! nat k else 0)
              * matrix ?V (c, k)"
        by simp
    qed
    finally show ?thesis .
  qed
  have "matrix (mat_mul (mat_mul ?V (asDiagonal ?inv)) (transpose_m ?V)) =
      (\<lambda>(r, c). \<Sum>k = 0..<num_rows A. matrix ?V (r, k) *
          (if ?tol < ?s ! nat k then 1 / ?s ! nat k else 0) * matrix ?V (c, k))"
  proof (rule ext)
    fix x :: "index_t \<times> index_t"
    obtain r c where x: "x = (r, c)" by (cases x)
    show "matrix (mat_mul (mat_mul ?V (asDiagonal ?inv)) (transpose_m ?V)) x =
      (case x of (r, c) \<Rightarrow> \<Sum>k = 0..<num_rows A. matrix ?V (r, k) *
          (if ?tol < ?s ! nat k then 1 / ?s ! nat k else 0) * matrix ?V (c, k))"
      unfolding x prod.case by (rule entry)
  qed
  then show ?thesis
    unfolding pinv_self_adjoint_def Let_def MA loop
    using assms(1) by (simp add: SGMatrix_alloc_def)
qed

lemma diag_eigen:
  fixes V :: "index_t \<Rightarrow> index_t \<Rightarrow> real" and s d :: "index_t \<Rightarrow> real"
  assumes fin: "finite I"
    and dec: "\<And>i k. i \<in> I \<Longrightarrow> k \<in> I \<Longrightarrow>
                (\<Sum>j\<in>I. V i j * s j * V k j) = (if i = k then d i else 0)"
    and o1: "\<And>j l. j \<in> I \<Longrightarrow> l \<in> I \<Longrightarrow> (\<Sum>i\<in>I. V i j * V i l) = (if j = l then 1 else 0)"
    and i: "i \<in> I" and l: "l \<in> I"
  shows "d i * V i l = s l * V i l"
proof -
  have "(\<Sum>k\<in>I. (\<Sum>j\<in>I. V i j * s j * V k j) * V k l)
      = (\<Sum>k\<in>I. if i = k then d i * V k l else 0)"
    using i by (intro sum.cong) (simp_all add: dec)
  also have "\<dots> = d i * V i l"
    using fin i by simp
  finally have left: "(\<Sum>k\<in>I. (\<Sum>j\<in>I. V i j * s j * V k j) * V k l) = d i * V i l" .
  have "(\<Sum>k\<in>I. (\<Sum>j\<in>I. V i j * s j * V k j) * V k l)
      = (\<Sum>k\<in>I. \<Sum>j\<in>I. V i j * s j * (V k j * V k l))"
    by (simp add: sum_distrib_right mult.assoc)
  also have "\<dots> = (\<Sum>j\<in>I. \<Sum>k\<in>I. V i j * s j * (V k j * V k l))"
    by (rule sum.swap)
  also have "\<dots> = (\<Sum>j\<in>I. V i j * s j * (\<Sum>k\<in>I. V k j * V k l))"
    by (simp add: sum_distrib_left)
  also have "\<dots> = (\<Sum>j\<in>I. if j = l then V i j * s j else 0)"
    using l by (intro sum.cong) (simp_all add: o1)
  also have "\<dots> = V i l * s l"
    using fin l by simp
  finally have "(\<Sum>k\<in>I. (\<Sum>j\<in>I. V i j * s j * V k j) * V k l) = V i l * s l" .
  with left have "d i * V i l = V i l * s l"
    by (rule trans [OF sym])
  then show ?thesis
    by (simp only: mult.commute)
qed

lemma diag_function:
  fixes V :: "index_t \<Rightarrow> index_t \<Rightarrow> real" and s d :: "index_t \<Rightarrow> real"
  assumes fin: "finite I"
    and dec: "\<And>i k. i \<in> I \<Longrightarrow> k \<in> I \<Longrightarrow>
                (\<Sum>j\<in>I. V i j * s j * V k j) = (if i = k then d i else 0)"
    and o1: "\<And>j l. j \<in> I \<Longrightarrow> l \<in> I \<Longrightarrow> (\<Sum>i\<in>I. V i j * V i l) = (if j = l then 1 else 0)"
    and o2: "\<And>i k. i \<in> I \<Longrightarrow> k \<in> I \<Longrightarrow> (\<Sum>j\<in>I. V i j * V k j) = (if i = k then 1 else 0)"
    and i: "i \<in> I" and k: "k \<in> I"
  shows "(\<Sum>j\<in>I. V i j * \<phi> (s j) * V k j) = (if i = k then \<phi> (d i) else 0)"
proof -
  have "V i j * \<phi> (s j) * V k j = \<phi> (d i) * (V i j * V k j)" if "j \<in> I" for j
  proof (cases "V i j = 0")
    case True
    then show ?thesis by simp
  next
    case False
    then have "d i = s j"
      using diag_eigen [OF fin dec o1 i that] by simp
    then show ?thesis by simp
  qed
  then have "(\<Sum>j\<in>I. V i j * \<phi> (s j) * V k j) = (\<Sum>j\<in>I. \<phi> (d i) * (V i j * V k j))"
    by (intro sum.cong) simp_all
  also have "\<dots> = \<phi> (d i) * (\<Sum>j\<in>I. V i j * V k j)"
    by (simp add: sum_distrib_left)
  finally show ?thesis
    using o2 [OF i k] by simp
qed

lemma diag_spectrum:
  fixes V :: "index_t \<Rightarrow> index_t \<Rightarrow> real" and s d :: "index_t \<Rightarrow> real"
  assumes fin: "finite I"
    and dec: "\<And>i k. i \<in> I \<Longrightarrow> k \<in> I \<Longrightarrow>
                (\<Sum>j\<in>I. V i j * s j * V k j) = (if i = k then d i else 0)"
    and o1: "\<And>j l. j \<in> I \<Longrightarrow> l \<in> I \<Longrightarrow> (\<Sum>i\<in>I. V i j * V i l) = (if j = l then 1 else 0)"
    and o2: "\<And>i k. i \<in> I \<Longrightarrow> k \<in> I \<Longrightarrow> (\<Sum>j\<in>I. V i j * V k j) = (if i = k then 1 else 0)"
  shows "s ` I = d ` I"
proof (intro equalityI subsetI)
  fix y assume "y \<in> s ` I"
  then obtain l where l: "l \<in> I" "y = s l" by blast
  have "\<exists>i\<in>I. V i l \<noteq> 0"
  proof (rule ccontr)
    assume "\<not> (\<exists>i\<in>I. V i l \<noteq> 0)"
    then have "(\<Sum>i\<in>I. V i l * V i l) = 0" by simp
    with o1 [OF l(1) l(1)] show False by simp
  qed
  then obtain i where i: "i \<in> I" "V i l \<noteq> 0" by blast
  then have "y = d i"
    using diag_eigen [OF fin dec o1 i(1) l(1)] l(2) by simp
  with i(1) show "y \<in> d ` I" by blast
next
  fix y assume "y \<in> d ` I"
  then obtain i where i: "i \<in> I" "y = d i" by blast
  have "\<exists>l\<in>I. V i l \<noteq> 0"
  proof (rule ccontr)
    assume "\<not> (\<exists>l\<in>I. V i l \<noteq> 0)"
    then have "(\<Sum>l\<in>I. V i l * V i l) = 0" by simp
    with o2 [OF i(1) i(1)] show False by simp
  qed
  then obtain l where l: "l \<in> I" "V i l \<noteq> 0" by blast
  then have "y = s l"
    using diag_eigen [OF fin dec o1 i(1) l(1)] i(2) by simp
  with l(1) show "y \<in> s ` I" by blast
qed

lemma quadratic_form_nonneg:
  fixes V :: "index_t \<Rightarrow> index_t \<Rightarrow> real" and sp x :: "index_t \<Rightarrow> real"
  assumes "\<And>k. k \<in> I \<Longrightarrow> 0 \<le> sp k"
  shows "0 \<le> (\<Sum>r\<in>I. \<Sum>c\<in>I. x r * (\<Sum>k\<in>I. V r k * sp k * V c k) * x c)"
proof -
  have "(\<Sum>r\<in>I. \<Sum>c\<in>I. x r * (\<Sum>k\<in>I. V r k * sp k * V c k) * x c)
      = (\<Sum>r\<in>I. \<Sum>c\<in>I. \<Sum>k\<in>I. sp k * ((x r * V r k) * (x c * V c k)))"
    by (simp add: sum_distrib_left sum_distrib_right mult_ac)
  also have "\<dots> = (\<Sum>r\<in>I. \<Sum>k\<in>I. \<Sum>c\<in>I. sp k * ((x r * V r k) * (x c * V c k)))"
    by (intro sum.cong refl sum.swap)
  also have "\<dots> = (\<Sum>k\<in>I. \<Sum>r\<in>I. \<Sum>c\<in>I. sp k * ((x r * V r k) * (x c * V c k)))"
    by (rule sum.swap)
  also have "\<dots> = (\<Sum>k\<in>I. sp k * ((\<Sum>r\<in>I. x r * V r k) * (\<Sum>c\<in>I. x c * V c k)))"
    by (subst sum_product) (simp add: sum_distrib_left)
  finally have "(\<Sum>r\<in>I. \<Sum>c\<in>I. x r * (\<Sum>k\<in>I. V r k * sp k * V c k) * x c)
      = (\<Sum>k\<in>I. sp k * ((\<Sum>r\<in>I. x r * V r k) * (\<Sum>c\<in>I. x c * V c k)))" .
  moreover have "0 \<le> (\<Sum>k\<in>I. sp k * ((\<Sum>r\<in>I. x r * V r k) * (\<Sum>c\<in>I. x c * V c k)))"
  proof (rule sum_nonneg)
    fix k assume "k \<in> I"
    then have "0 \<le> sp k" by (rule assms)
    moreover have "0 \<le> (\<Sum>r\<in>I. x r * V r k) * (\<Sum>c\<in>I. x c * V c k)"
      by (rule zero_le_square)
    ultimately show "0 \<le> sp k * ((\<Sum>r\<in>I. x r * V r k) * (\<Sum>c\<in>I. x c * V c k))"
      by (rule mult_nonneg_nonneg)
  qed
  ultimately show ?thesis by simp
qed

lemma set_conv_image_int:
  assumes "int (length xs) = m"
  shows "set xs = (\<lambda>j. xs ! nat j) ` {0..<m}"
proof (intro equalityI subsetI)
  fix y assume "y \<in> set xs"
  then obtain i where i: "i < length xs" "y = xs ! i"
    by (auto simp: in_set_conv_nth)
  then have "int i \<in> {0..<m}" "y = xs ! nat (int i)"
    using assms by auto
  then show "y \<in> (\<lambda>j. xs ! nat j) ` {0..<m}" by blast
next
  fix y assume "y \<in> (\<lambda>j. xs ! nat j) ` {0..<m}"
  then obtain j where j: "j \<in> {0..<m}" "y = xs ! nat j" by blast
  then have "nat j < length xs" using assms by auto
  with j(2) show "y \<in> set xs" by simp
qed

text \<open>
  Claim C2. Let \<open>A\<close> be square of side \<open>m > 0\<close>, and let the eigensolver report \<open>m\<close>
  eigenvalues \<open>s\<close> and an \<open>m\<close> by \<open>m\<close> matrix \<open>V\<close>. Then \<open>pinv_self_adjoint\<close> computes the
  tolerance \<open>tau = MACHINE_EPSILON * m * max_i s_i\<close> and returns the \<open>m\<close> by \<open>m\<close> matrix
  \<open>V diag(s+) V^T\<close> with \<open>s+_i = 1/s_i\<close> if \<open>s_i > tau\<close> (strictly) and \<open>s+_i = 0\<close> otherwise.
  In particular, if \<open>A\<close> is the diagonal matrix \<open>diag(d)\<close> and the solver is right
  (\<open>A = V diag(s) V^T\<close> with \<open>V\<close> orthogonal), the result is diagonal with entry \<open>1/d_i\<close>
  where \<open>d_i > MACHINE_EPSILON * m * max d\<close> and \<open>0\<close> where \<open>d_i\<close> is at most that
  tolerance.
\<close>

theorem pinv_self_adjoint_tolerance_rule:
  fixes A :: SGMatrix and new_solver :: "SGMatrix \<Rightarrow> SelfAdjointEigenSolver"
    and eps :: float64_t and d :: "index_t \<Rightarrow> float64_t"
  defines "m \<equiv> num_rows A"
    and "s \<equiv> eigenvalues (new_solver A)"
    and "V \<equiv> eigenvectors (new_solver A)"
  defines "tau \<equiv> eps * of_int m * Max (set s)"
  assumes square: "num_cols A = m" and pos: "0 < m"
    and dims: "int (length s) = m" "num_rows V = m" "num_cols V = m"
  shows "\<exists>P. pinv_self_adjoint eps new_solver A = Inr P \<and>
           num_rows P = m \<and> num_cols P = m \<and>
           (\<forall>r c. elem P r c =
              (\<Sum>k = 0..<m. elem V r k * (if s ! nat k > tau then 1 / s ! nat k else 0)
                               * elem V c k)) \<and>
           ((\<forall>r\<in>{0..<m}. \<forall>c\<in>{0..<m}. elem A r c = (if r = c then d r else 0)) \<and>
            (\<forall>r\<in>{0..<m}. \<forall>c\<in>{0..<m}.
               elem A r c = (\<Sum>k = 0..<m. elem V r k * s ! nat k * elem V c k)) \<and>
            (\<forall>j\<in>{0..<m}. \<forall>l\<in>{0..<m}.
               (\<Sum>i = 0..<m. elem V i j * elem V i l) = (if j = l then 1 else 0)) \<and>
            (\<forall>i\<in>{0..<m}. \<forall>k\<in>{0..<m}.
               (\<Sum>j = 0..<m. elem V i j * elem V k j) = (if i = k then 1 else 0))
            \<longrightarrow>
            (\<forall>r\<in>{0..<m}. \<forall>c\<in>{0..<m}.
               elem P r c =
                 (if r = c
                  then (if d r > eps * of_int m * Max (d ` {0..<m}) then 1 / d r else 0)
                  else 0)))"
proof -
  let ?I = "{0..<m}"
  let ?\<phi> = "\<lambda>x. if x > tau then 1 / x else (0::real)"
  let ?P = "\<lparr>num_rows = m, num_cols = m,
            matrix = (\<lambda>(r, c). \<Sum>k = 0..<m. matrix V (r, k) * ?\<phi> (s ! nat k) * matrix V (c, k))\<rparr>"
  have ne: "s \<noteq> []" using pos dims(1) by auto
  have P: "pinv_self_adjoint eps new_solver A = Inr ?P"
    using pinv_self_adjoint_eq [of A new_solver eps] square dims
    unfolding m_def s_def V_def tau_def by (simp add: maxCoeff_Max [OF ne [unfolded s_def]])
  have general: "elem ?P r c = (\<Sum>k = 0..<m. elem V r k * ?\<phi> (s ! nat k) * elem V c k)" for r c
    by (simp add: elem_def)
  have diagonal: "elem ?P r c =
        (if r = c then (if d r > eps * of_int m * Max (d ` ?I) then 1 / d r else 0) else 0)"
    if A: "\<forall>r\<in>?I. \<forall>c\<in>?I. elem A r c = (if r = c then d r else 0)"
      and dec: "\<forall>r\<in>?I. \<forall>c\<in>?I. elem A r c = (\<Sum>k = 0..<m. elem V r k * s ! nat k * elem V c k)"
      and o1: "\<forall>j\<in>?I. \<forall>l\<in>?I. (\<Sum>i = 0..<m. elem V i j * elem V i l) = (if j = l then 1 else 0)"
      and o2: "\<forall>i\<in>?I. \<forall>k\<in>?I. (\<Sum>j = 0..<m. elem V i j * elem V k j) = (if i = k then 1 else 0)"
      and r: "r \<in> ?I" and c: "c \<in> ?I" for r c
  proof -
    have fin: "finite ?I" by simp
    have dec': "(\<Sum>j\<in>?I. elem V i j * s ! nat j * elem V k j) = (if i = k then d i else 0)"
      if "i \<in> ?I" "k \<in> ?I" for i k
      using A dec that by metis
    have o1': "(\<Sum>i\<in>?I. elem V i j * elem V i l) = (if j = l then 1 else 0)"
      if "j \<in> ?I" "l \<in> ?I" for j l
      using o1 that by blast
    have o2': "(\<Sum>j\<in>?I. elem V i j * elem V k j) = (if i = k then 1 else 0)"
      if "i \<in> ?I" "k \<in> ?I" for i k
      using o2 that by blast
    have "(\<lambda>j. s ! nat j) ` ?I = d ` ?I"
      using fin dec' o1' o2' by (rule diag_spectrum)
    then have "Max (set s) = Max (d ` ?I)"
      using set_conv_image_int [OF dims(1)] by simp
    then have tau: "tau = eps * of_int m * Max (d ` ?I)"
      by (simp add: tau_def)
    have "(\<Sum>j\<in>?I. elem V r j * ?\<phi> (s ! nat j) * elem V c j) = (if r = c then ?\<phi> (d r) else 0)"
      using fin dec' o1' o2' r c by (rule diag_function)
    then have "elem ?P r c = (if r = c then ?\<phi> (d r) else 0)"
      by (simp only: general)
    then show ?thesis
      by (simp only: tau)
  qed
  show ?thesis
  proof (intro exI [of _ ?P] conjI allI impI ballI)
    show "pinv_self_adjoint eps new_solver A = Inr ?P" by (rule P)
    show "num_rows ?P = m" "num_cols ?P = m" by simp_all
  next
    fix r c
    show "elem ?P r c = (\<Sum>k = 0..<m. elem V r k * ?\<phi> (s ! nat k) * elem V c k)"
      by (rule general)
  next
    fix r c
    assume "(\<forall>r\<in>{0..<m}. \<forall>c\<in>{0..<m}. elem A r c = (if r = c then d r else 0)) \<and>
            (\<forall>r\<in>{0..<m}. \<forall>c\<in>{0..<m}.
               elem A r c = (\<Sum>k = 0..<m. elem V r k * s ! nat k * elem V c k)) \<and>
            (\<forall>j\<in>{0..<m}. \<forall>l\<in>{0..<m}.
               (\<Sum>i = 0..<m. elem V i j * elem V i l) = (if j = l then 1 else 0)) \<and>
            (\<forall>i\<in>{0..<m}. \<forall>k\<in>{0..<m}.
               (\<Sum>j = 0..<m. elem V i j * elem V k j) = (if i = k then 1 else 0))"
      and "r \<in> {0..<m}" "c \<in> {0..<m}"
    then show "elem ?P r c =
        (if r = c then (if d r > eps * of_int m * Max (d ` ?I) then 1 / d r else 0) else 0)"
      using diagonal [of r c] by blast
  qed
qed

theorem pinv_self_adjoint_tolerance_rule_witness:
  "\<exists>P. pinv_self_adjoint (1 / 4) example_diag_solver example_diag = Inr P \<and>
       elem P 0 0 = 1 / 2 \<and> elem P 0 1 = 0 \<and> elem P 1 0 = 0 \<and> elem P 1 1 = 0"
proof -
  let ?d = "\<lambda>r::index_t. if r = 0 then 2 else (1::real)"
  let ?V = "eigenvectors (example_diag_solver example_diag)"
  let ?s = "eigenvalues (example_diag_solver example_diag)"
  have I: "{0..<2::int} = {0, 1}" by auto
  have m: "num_rows example_diag = 2" by (simp add: example_diag_def)
  have sq: "num_cols example_diag = num_rows example_diag"
    and pos: "0 < num_rows example_diag"
    and dims: "int (length ?s) = num_rows example_diag"
      "num_rows ?V = num_rows example_diag" "num_cols ?V = num_rows example_diag"
    by (simp_all add: example_diag_def example_diag_solver_def)
  have A: "\<forall>r\<in>{0..<2}. \<forall>c\<in>{0..<2}. elem example_diag r c = (if r = c then ?d r else 0)"
    by (simp add: example_diag_def elem_def)
  have dec: "\<forall>r\<in>{0..<2}. \<forall>c\<in>{0..<2}.
      elem example_diag r c = (\<Sum>k = 0..<2. elem ?V r k * ?s ! nat k * elem ?V c k)"
    by (simp add: I example_diag_def example_diag_solver_def elem_def)
  have o1: "\<forall>j\<in>{0..<2}. \<forall>l\<in>{0..<2}.
      (\<Sum>i = 0..<2. elem ?V i j * elem ?V i l) = (if j = l then 1 else 0)"
    by (simp add: I example_diag_solver_def elem_def)
  have o2: "\<forall>i\<in>{0..<2}. \<forall>k\<in>{0..<2}.
      (\<Sum>j = 0..<2. elem ?V i j * elem ?V k j) = (if i = k then 1 else 0)"
    by (simp add: I example_diag_solver_def elem_def)
  have mx: "Max (?d ` {0..<2}) = 2" by (simp add: I)
  from pinv_self_adjoint_tolerance_rule [where A = example_diag
      and new_solver = example_diag_solver and eps = "1 / 4" and d = ?d, OF sq pos dims,
      unfolded m]
  obtain P where P: "pinv_self_adjoint (1 / 4) example_diag_solver example_diag = Inr P"
    and diag: "(\<forall>r\<in>{0..<2}. \<forall>c\<in>{0..<2}. elem example_diag r c = (if r = c then ?d r else 0)) \<and>
            (\<forall>r\<in>{0..<2}. \<forall>c\<in>{0..<2}.
               elem example_diag r c = (\<Sum>k = 0..<2. elem ?V r k * ?s ! nat k * elem ?V c k)) \<and>
            (\<forall>j\<in>{0..<2}. \<forall>l\<in>{0..<2}.
               (\<Sum>i = 0..<2. elem ?V i j * elem ?V i l) = (if j = l then 1 else 0)) \<and>
            (\<forall>i\<in>{0..<2}. \<forall>k\<in>{0..<2}.
               (\<Sum>j = 0..<2. elem ?V i j * elem ?V k j) = (if i = k then 1 else 0))
            \<longrightarrow>
            (\<forall>r\<in>{0..<2}. \<forall>c\<in>{0..<2}.
               elem P r c =
                 (if r = c
                  then (if ?d r > 1 / 4 * of_int 2 * Max (?d ` {0..<2}) then 1 / ?d r else 0)
                  else 0))"
    by blast
  from diag A dec o1 o2 have "\<forall>r\<in>{0..<2}. \<forall>c\<in>{0..<2}.
               elem P r c =
                 (if r = c
                  then (if ?d r > 1 / 4 * of_int 2 * Max (?d ` {0..<2}) then 1 / ?d r else 0)
                  else 0)"
    by blast
  then have "elem P 0 0 = 1 / 2 \<and> elem P 0 1 = 0 \<and> elem P 1 0 = 0 \<and> elem P 1 1 = 0"
    unfolding mx by (simp add: I)
  with P show ?thesis by blast
qed

lemma tolerance_passes_only_positive:
  fixes x M c :: real
  assumes "0 \<le> c" and "c < 1" and "x \<le> M" and "c * M < x"
  shows "0 < x"
proof (cases "0 \<le> M")
  case True
  then have "0 \<le> c * M" using assms(1) by simp
  with assms(4) show ?thesis by simp
next
  case False
  then have "(1 - c) * M < 0"
    using assms(2) by (intro mult_pos_neg) simp_all
  then have "M < c * M" by (simp add: algebra_simps)
  with assms(3,4) show ?thesis by simp
qed

text \<open>
  Claim C10. Let \<open>MACHINE_EPSILON\<close> be positive with \<open>m * MACHINE_EPSILON < 1\<close>, for a
  square \<open>A\<close> of side \<open>m > 0\<close> and a solver that reports \<open>m\<close> eigenvalues and an \<open>m\<close> by
  \<open>m\<close> matrix. Then no eigenvalue \<open>s_i \<le> 0\<close> passes the test \<open>s_i > tau\<close>: only positive
  eigenvalues are inverted, every other one is replaced by zero, and the matrix
  returned is symmetric and positive semi-definite.
\<close>

theorem pinv_self_adjoint_truncates_nonpositive:
  fixes A :: SGMatrix and new_solver :: "SGMatrix \<Rightarrow> SelfAdjointEigenSolver"
    and eps :: float64_t
  defines "m \<equiv> num_rows A"
    and "s \<equiv> eigenvalues (new_solver A)"
    and "V \<equiv> eigenvectors (new_solver A)"
  defines "tau \<equiv> eps * of_int m * Max (set s)"
  assumes eps: "0 < eps" "of_int m * eps < 1"
    and square: "num_cols A = m" and pos: "0 < m"
    and dims: "int (length s) = m" "num_rows V = m" "num_cols V = m"
  shows "\<exists>P. pinv_self_adjoint eps new_solver A = Inr P \<and>
           (\<forall>k\<in>{0..<m}. s ! nat k \<le> 0 \<longrightarrow> \<not> s ! nat k > tau) \<and>
           (\<forall>r c. elem P r c =
              (\<Sum>k = 0..<m. elem V r k *
                 (if 0 < s ! nat k \<and> s ! nat k > tau then 1 / s ! nat k else 0) * elem V c k)) \<and>
           (\<forall>r c. elem P r c = elem P c r) \<and>
           (\<forall>x. 0 \<le> (\<Sum>r = 0..<m. \<Sum>c = 0..<m. x r * elem P r c * x c))"
proof -
  let ?I = "{0..<m}"
  let ?sp = "\<lambda>k. if s ! nat k > tau then 1 / s ! nat k else (0::real)"
  let ?P = "\<lparr>num_rows = m, num_cols = m,
            matrix = (\<lambda>(r, c). \<Sum>k = 0..<m. matrix V (r, k) * ?sp k * matrix V (c, k))\<rparr>"
  have ne: "s \<noteq> []" using pos dims(1) by auto
  have P: "pinv_self_adjoint eps new_solver A = Inr ?P"
    using pinv_self_adjoint_eq [of A new_solver eps] square dims
    unfolding m_def s_def V_def tau_def by (simp add: maxCoeff_Max [OF ne [unfolded s_def]])
  have positive: "0 < s ! nat k" if "k \<in> ?I" "s ! nat k > tau" for k
  proof (rule tolerance_passes_only_positive)
    show "0 \<le> eps * of_int m" using eps(1) pos by simp
    show "eps * of_int m < 1" using eps(2) by (simp add: mult.commute)
    have "nat k < length s" using that(1) dims(1) by auto
    then show "s ! nat k \<le> Max (set s)" by simp
    show "eps * of_int m * Max (set s) < s ! nat k" using that(2) by (simp add: tau_def)
  qed
  have sp: "?sp k = (if 0 < s ! nat k \<and> s ! nat k > tau then 1 / s ! nat k else 0)"
    if "k \<in> ?I" for k
    using positive [OF that] by auto
  have sp_nonneg: "0 \<le> ?sp k" if "k \<in> ?I" for k
    using positive [OF that] by auto
  have entry: "elem ?P r c = (\<Sum>k = 0..<m. elem V r k * ?sp k * elem V c k)" for r c
    by (simp add: elem_def)
  have entry': "elem ?P r c = (\<Sum>k = 0..<m. elem V r k *
                 (if 0 < s ! nat k \<and> s ! nat k > tau then 1 / s ! nat k else 0) * elem V c k)"
    for r c
    unfolding entry by (intro sum.cong refl) (simp only: sp)
  have sym: "elem ?P r c = elem ?P c r" for r c
    unfolding entry by (intro sum.cong refl) (simp add: mult_ac)
  have psd: "0 \<le> (\<Sum>r = 0..<m. \<Sum>c = 0..<m. x r * elem ?P r c * x c)" for x
    unfolding entry by (rule quadratic_form_nonneg) (rule sp_nonneg)
  show ?thesis
  proof (intro exI [of _ ?P] conjI allI ballI impI)
    show "pinv_self_adjoint eps new_solver A = Inr ?P" by (rule P)
  next
    fix k assume "k \<in> ?I" "s ! nat k \<le> 0"
    then show "\<not> s ! nat k > tau" using positive [of k] by auto
  next
    fix r c
    show "elem ?P r c = (\<Sum>k = 0..<m. elem V r k *
                 (if 0 < s ! nat k \<and> s ! nat k > tau then 1 / s ! nat k else 0) * elem V c k)"
      by (rule entry')
    show "elem ?P r c = elem ?P c r" by (rule sym)
  next
    fix x
    show "0 \<le> (\<Sum>r = 0..<m. \<Sum>c = 0..<m. x r * elem ?P r c * x c)" by (rule psd)
  qed
qed

theorem pinv_self_adjoint_truncates_nonpositive_witness:
  "\<exists>P. pinv_self_adjoint (1 / 4) example_indefinite_solver example_indefinite = Inr P \<and>
       elem P 0 0 = 0 \<and> elem P 1 1 = 1 / 2 \<and> elem P 0 1 = elem P 1 0 \<and>
       0 \<le> (\<Sum>r = 0..<2. \<Sum>c = 0..<2.
               (if r = 0 then 1 else - 1) * elem P r c * (if c = 0 then 1 else - 1))"
proof -
  let ?V = "eigenvectors (example_indefinite_solver example_indefinite)"
  let ?s = "eigenvalues (example_indefinite_solver example_indefinite)"
  have I: "{0..<2::int} = {0, 1}" by auto
  have m: "num_rows example_indefinite = 2" by (simp add: example_indefinite_def)
  have eps: "(0::real) < 1 / 4" "of_int (num_rows example_indefinite) * (1 / 4 :: real) < 1"
    by (simp_all add: example_indefinite_def)
  have sq: "num_cols example_indefinite = num_rows example_indefinite"
    and pos: "0 < num_rows example_indefinite"
    and dims: "int (length ?s) = num_rows example_indefinite"
      "num_rows ?V = num_rows example_indefinite" "num_cols ?V = num_rows example_indefinite"
    by (simp_all add: example_indefinite_def example_indefinite_solver_def)
  from pinv_self_adjoint_truncates_nonpositive [where A = example_indefinite
      and new_solver = example_indefinite_solver and eps = "1 / 4", OF eps sq pos dims,
      unfolded m]
  obtain P where P: "pinv_self_adjoint (1 / 4) example_indefinite_solver example_indefinite = Inr P"
    and entry: "\<And>r c. elem P r c =
              (\<Sum>k = 0..<2. elem ?V r k *
                 (if 0 < ?s ! nat k \<and> ?s ! nat k > 1 / 4 * of_int 2 * Max (set ?s)
                  then 1 / ?s ! nat k else 0) * elem ?V c k)"
    and sym: "\<And>r c. elem P r c = elem P c r"
    and psd: "\<And>x. 0 \<le> (\<Sum>r = 0..<2. \<Sum>c = 0..<2. x r * elem P r c * x c)"
    by blast
  have "elem P 0 0 = 0" "elem P 1 1 = 1 / 2"
    unfolding entry by (simp_all add: I example_indefinite_solver_def elem_def)
  moreover have "elem P 0 1 = elem P 1 0" by (rule sym)
  moreover have "0 \<le> (\<Sum>r = 0..<2. \<Sum>c = 0..<2.
               (if r = 0 then 1 else - 1) * elem P r c * (if c = 0 then 1 else - 1))"
    by (rule psd [of "\<lambda>r. if r = 0 then 1 else - 1"])
  ultimately show ?thesis using P by blast
qed

end
